theory Spec2Isabelle
  imports Main
begin

section \<open>Data model\<close>

text \<open>
  The development follows the Postgres version of \<^verbatim>\<open>server.js\<close>. Requests are taken
  one at a time: each handler runs to completion on the database the previous one left.
  A table is the list of its rows; an \<^verbatim>\<open>UPDATE ... WHERE c\<close> maps over the rows and rewrites those that
  satisfy \<^verbatim>\<open>c\<close>, a \<^verbatim>\<open>SELECT ... WHERE c\<close> filters them, an \<^verbatim>\<open>INSERT\<close> appends a row.
  \<^verbatim>\<open>INTEGER\<close> columns are \<open>int\<close>, timestamps are milliseconds since the epoch (the value
  of \<^verbatim>\<open>Date.getTime()\<close>). Columns that none of the modelled handlers reads
  (\<^verbatim>\<open>title\<close>, \<^verbatim>\<open>category\<close>, \<^verbatim>\<open>password_hash\<close>, \<^verbatim>\<open>wallet_address\<close>, \<^verbatim>\<open>created_at\<close>,
  the serial id of a participant row) are left out. The Postgres version alters the
  tournaments table without creating it; its columns are the ones the handlers name, as
  in the \<^verbatim>\<open>CREATE TABLE tournaments\<close> of the SQLite version.

  An \<^verbatim>\<open>INTEGER\<close> column holds \<open>-2147483648 .. 2147483647\<close>. Postgres refuses a
  statement that computes a value outside this range (\<^verbatim>\<open>integer out of range\<close>); the
  handler's \<^verbatim>\<open>catch\<close> block then rolls back and answers with an error. Each \<^verbatim>\<open>UPDATE\<close>
  that does arithmetic therefore comes with a predicate saying when it is refused. Values
  that are copied, not computed (the fee stored as \<^verbatim>\<open>points_paid\<close>), come from a column
  and need no check. Failures outside the data (a lost connection) are not modelled.

  The \<^verbatim>\<open>status\<close> column is text; the code only ever writes and compares the four
  literals \<^verbatim>\<open>'pending'\<close> (the column default), \<^verbatim>\<open>'active'\<close>, \<^verbatim>\<open>'closed'\<close> and
  \<^verbatim>\<open>'resolved'\<close>.
\<close>

datatype status = Pending | Active | Closed | Resolved

record user =
  u_id :: nat
  email :: "string option"
  username :: string
  points :: int
  total_tournaments :: int
  won_tournaments :: int
  last_claim_date :: "int option"

record tournament =
  t_id :: nat
  options :: "string list"
  entry_fee :: int
  max_participants :: int
  current_participants :: int
  prize_pool :: int
  start_time :: int
  end_time :: int
  status :: status
  correct_answer :: "string option"

record participant =
  tournament_id :: nat
  user_id :: nat
  prediction :: string
  points_paid :: int

text \<open>\<open>users_id_seq\<close> is the last value handed out by the sequence behind \<^verbatim>\<open>users.id SERIAL\<close>.\<close>

record db =
  users :: "user list"
  tournaments :: "tournament list"
  participants :: "participant list"
  users_id_seq :: nat

text \<open>\<^verbatim>\<open>id SERIAL PRIMARY KEY\<close> on users and tournaments: no two rows share an id.\<close>

definition pk_ok :: "db \<Rightarrow> bool" where
  "pk_ok s \<longleftrightarrow> distinct (map u_id (users s)) \<and> distinct (map t_id (tournaments s))"

text \<open>The range of an \<^verbatim>\<open>INTEGER\<close> column.\<close>

definition int4 :: "int \<Rightarrow> bool" where
  "int4 v \<longleftrightarrow> - 2147483648 \<le> v \<and> v \<le> 2147483647"

section \<open>Entering a tournament: \<^verbatim>\<open>POST /api/tournaments/:id/enter\<close>\<close>

text \<open>The four \<^verbatim>\<open>throw new Error(...)\<close> of the handler, with their messages, and the error
  the driver throws when Postgres refuses a statement for a value out of range.\<close>

datatype enter_error =
  NotFoundOrNotActive | InsufficientPoints | TournamentFull | AlreadyParticipated
| IntegerOutOfRange

fun enter_message :: "enter_error \<Rightarrow> string" where
  "enter_message NotFoundOrNotActive = ''Tournament not found or not active''"
| "enter_message InsufficientPoints = ''Insufficient points''"
| "enter_message TournamentFull = ''Tournament full''"
| "enter_message AlreadyParticipated = ''Already participated''"
| "enter_message IntegerOutOfRange = ''integer out of range''"

text \<open>\<^verbatim>\<open>err.message.includes('not found') ? 404 : 400\<close>: only the first message contains
  \<^verbatim>\<open>not found\<close>.\<close>

fun enter_status_code :: "enter_error \<Rightarrow> nat" where
  "enter_status_code NotFoundOrNotActive = 404"
| "enter_status_code _ = 400"

datatype enter_response = EnterOk | EnterFailed nat string

text \<open>
  \<^verbatim>\<open>SELECT t.*, u.points AS user_points FROM tournaments t JOIN users u ON u.id = $2
  WHERE t.id = $1 AND t.status = 'active'\<close>: the pairs of a matching tournament row and a
  matching user row.
\<close>

definition enter_select :: "db \<Rightarrow> nat \<Rightarrow> nat \<Rightarrow> (tournament \<times> user) list" where
  "enter_select s tid uid =
     List.product (filter (\<lambda>t. t_id t = tid \<and> status t = Active) (tournaments s))
                  (filter (\<lambda>u. u_id u = uid) (users s))"

text \<open>\<^verbatim>\<open>SELECT id FROM participants WHERE tournament_id = $1 AND user_id = $2\<close>\<close>

definition existing_participation :: "db \<Rightarrow> nat \<Rightarrow> nat \<Rightarrow> participant list" where
  "existing_participation s tid uid =
     filter (\<lambda>p. tournament_id p = tid \<and> user_id p = uid) (participants s)"

text \<open>\<^verbatim>\<open>UPDATE users SET points = points - $1 WHERE id = $2\<close>\<close>

definition debit_points :: "int \<Rightarrow> nat \<Rightarrow> user list \<Rightarrow> user list" where
  "debit_points fee uid us =
     map (\<lambda>u. if u_id u = uid then u\<lparr>points := points u - fee\<rparr> else u) us"

text \<open>The statement is refused when a row it rewrites would leave the range.\<close>

definition debit_refused :: "int \<Rightarrow> nat \<Rightarrow> user list \<Rightarrow> bool" where
  "debit_refused fee uid us \<longleftrightarrow> list_ex (\<lambda>u. u_id u = uid \<and> \<not> int4 (points u - fee)) us"

text \<open>\<^verbatim>\<open>UPDATE tournaments SET current_participants = current_participants + 1,
  prize_pool = prize_pool + $1 WHERE id = $2\<close>\<close>

definition add_entry :: "int \<Rightarrow> nat \<Rightarrow> tournament list \<Rightarrow> tournament list" where
  "add_entry fee tid ts =
     map (\<lambda>t. if t_id t = tid
               then t\<lparr>current_participants := current_participants t + 1,
                      prize_pool := prize_pool t + fee\<rparr>
               else t) ts"

definition add_entry_refused :: "int \<Rightarrow> nat \<Rightarrow> tournament list \<Rightarrow> bool" where
  "add_entry_refused fee tid ts \<longleftrightarrow>
     list_ex (\<lambda>t. t_id t = tid
                 \<and> \<not> (int4 (current_participants t + 1) \<and> int4 (prize_pool t + fee))) ts"

text \<open>The body of the \<^verbatim>\<open>try\<close> block between \<^verbatim>\<open>BEGIN\<close> and \<^verbatim>\<open>COMMIT\<close>: \<open>Inl\<close> is a
  thrown error, \<open>Inr\<close> the database as committed.\<close>

definition enter_tx :: "db \<Rightarrow> nat \<Rightarrow> nat \<Rightarrow> string \<Rightarrow> enter_error + db" where
  "enter_tx s tid uid pred =
     (case enter_select s tid uid of
        [] \<Rightarrow> Inl NotFoundOrNotActive
      | (t, u) # _ \<Rightarrow>
          if points u < entry_fee t then Inl InsufficientPoints
          else if current_participants t \<ge> max_participants t then Inl TournamentFull
          else if existing_participation s tid uid \<noteq> [] then Inl AlreadyParticipated
          else if debit_refused (entry_fee t) uid (users s) then Inl IntegerOutOfRange
          else if add_entry_refused (entry_fee t) tid (tournaments s) then Inl IntegerOutOfRange
          else Inr (s\<lparr>users := debit_points (entry_fee t) uid (users s),
                      participants := participants s @
                        [\<lparr>tournament_id = tid, user_id = uid, prediction = pred,
                          points_paid = entry_fee t\<rparr>],
                      tournaments := add_entry (entry_fee t) tid (tournaments s)\<rparr>))"

text \<open>The handler: \<^verbatim>\<open>COMMIT\<close> keeps the writes, the \<^verbatim>\<open>catch\<close> block's \<^verbatim>\<open>ROLLBACK\<close>
  restores the database the request started from.\<close>

definition enter :: "db \<Rightarrow> nat \<Rightarrow> nat \<Rightarrow> string \<Rightarrow> db \<times> enter_response" where
  "enter s tid uid pred =
     (case enter_tx s tid uid pred of
        Inr s' \<Rightarrow> (s', EnterOk)
      | Inl e \<Rightarrow> (s, EnterFailed (enter_status_code e) (enter_message e)))"

section \<open>Resolving a tournament: \<^verbatim>\<open>POST /api/admin/tournaments/:id/resolve\<close>\<close>

text \<open>\<^verbatim>\<open>UPDATE tournaments SET status = 'resolved', correct_answer = $2 WHERE id = $3\<close>\<close>

definition mark_resolved :: "nat \<Rightarrow> string \<Rightarrow> tournament list \<Rightarrow> tournament list" where
  "mark_resolved tid answer ts =
     map (\<lambda>t. if t_id t = tid then t\<lparr>status := Resolved, correct_answer := Some answer\<rparr> else t) ts"

text \<open>
  \<^verbatim>\<open>SELECT p.user_id, t.prize_pool, COUNT(*) OVER() AS winner_count FROM participants p
  JOIN tournaments t ON p.tournament_id = t.id WHERE p.tournament_id = $1 AND p.prediction = $2\<close>:
  one row \<open>(user_id, prize_pool)\<close> for each matching participant row and each tournament row
  it joins with.
\<close>

definition select_winners :: "db \<Rightarrow> nat \<Rightarrow> string \<Rightarrow> (nat \<times> int) list" where
  "select_winners s tid answer =
     concat (map (\<lambda>p. map (\<lambda>t. (user_id p, prize_pool t))
                           (filter (\<lambda>t. t_id t = tournament_id p) (tournaments s)))
                 (filter (\<lambda>p. tournament_id p = tid \<and> prediction p = answer) (participants s)))"

text \<open>\<^verbatim>\<open>UPDATE users SET points = points + $1, won_tournaments = won_tournaments + 1
  WHERE id = $2\<close>\<close>

definition credit_winner :: "int \<Rightarrow> nat \<Rightarrow> user list \<Rightarrow> user list" where
  "credit_winner prize uid us =
     map (\<lambda>u. if u_id u = uid
               then u\<lparr>points := points u + prize, won_tournaments := won_tournaments u + 1\<rparr>
               else u) us"

definition credit_winner_refused :: "int \<Rightarrow> nat \<Rightarrow> user list \<Rightarrow> bool" where
  "credit_winner_refused prize uid us \<longleftrightarrow>
     list_ex (\<lambda>u. u_id u = uid
                 \<and> \<not> (int4 (points u + prize) \<and> int4 (won_tournaments u + 1))) us"

text \<open>\<^verbatim>\<open>for (const winner of winners.rows) { UPDATE users ... }\<close>: the credits one after
  the other, \<open>None\<close> as soon as one of them is refused.\<close>

fun pay_winners :: "int \<Rightarrow> (nat \<times> int) list \<Rightarrow> user list \<Rightarrow> user list option" where
  "pay_winners prize [] us = Some us"
| "pay_winners prize (w # ws) us =
     (if credit_winner_refused prize (fst w) us then None
      else pay_winners prize ws (credit_winner prize (fst w) us))"

text \<open>
  The credits of a list of winners (their user ids, one entry for each credit) stay in
  range: a user row that is credited \<open>n\<close> times holds a value in range after the first,
  the second, ..., the \<open>n\<close>-th credit.
\<close>

definition credits_in_range :: "int \<Rightarrow> nat list \<Rightarrow> user list \<Rightarrow> bool" where
  "credits_in_range prize ids us \<longleftrightarrow>
     (\<forall>u \<in> set us. \<forall>j \<in> {1 .. count_list ids (u_id u)}.
        int4 (points u + prize * int j) \<and> int4 (won_tournaments u + int j))"

text \<open>A user row after the credits of such a list.\<close>

definition credited :: "int \<Rightarrow> nat list \<Rightarrow> user \<Rightarrow> user" where
  "credited prize ids u =
     u\<lparr>points := points u + prize * int (count_list ids (u_id u)),
       won_tournaments := won_tournaments u + int (count_list ids (u_id u))\<rparr>"

text \<open>The two success answers of the handler, and the answer of its \<^verbatim>\<open>catch\<close> block
  (status 500, \<^verbatim>\<open>Failed to resolve tournament\<close>), reached when a credit is refused; the
  \<^verbatim>\<open>ROLLBACK\<close> there also undoes the status update.\<close>

datatype resolve_response =
  ResolvedNoWinners
| ResolvedWinners nat int
| ResolveFailed

text \<open>\<^verbatim>\<open>Math.floor(winners.rows[0].prize_pool / winners.rows.length)\<close> is \<open>div\<close> on \<open>int\<close>,
  which rounds towards minus infinity as \<^verbatim>\<open>Math.floor\<close> does.\<close>

definition resolve :: "db \<Rightarrow> nat \<Rightarrow> string \<Rightarrow> db \<times> resolve_response" where
  "resolve s tid answer =
     (let s1 = s\<lparr>tournaments := mark_resolved tid answer (tournaments s)\<rparr>;
          winners = select_winners s1 tid answer
      in case winners of
           [] \<Rightarrow> (s1, ResolvedNoWinners)
         | w # _ \<Rightarrow>
             (let prizePerWinner = snd w div int (length winners)
              in case pay_winners prizePerWinner winners (users s1) of
                   None \<Rightarrow> (s, ResolveFailed)
                 | Some us \<Rightarrow>
                     (s1\<lparr>users := us\<rparr>, ResolvedWinners (length winners) prizePerWinner)))"

section \<open>Free points: \<^verbatim>\<open>POST /api/user/claim-free-points\<close>\<close>

definition pointsToAdd :: int where
  "pointsToAdd = 500"

definition cooldownHours :: int where
  "cooldownHours = 24"

text \<open>Milliseconds in an hour, the \<^verbatim>\<open>36e5\<close> of the handler.\<close>

definition hour_ms :: int where
  "hour_ms = 3600000"

text \<open>
  \<open>CooldownActive r n\<close> is the 429 answer: \<open>r\<close> is the remaining wait and \<open>n\<close> the
  \<^verbatim>\<open>next_claim_available\<close> instant, both in milliseconds (the handler prints the wait in
  hours with one decimal). \<open>Claimed p n\<close> is the success answer. \<open>ClaimFailed\<close> is the
  answer of the \<^verbatim>\<open>catch\<close> block (status 500, \<^verbatim>\<open>Failed to claim points\<close>).
\<close>

datatype claim_response =
  ClaimUserNotFound
| CooldownActive int int
| Claimed int int
| ClaimFailed

text \<open>\<^verbatim>\<open>UPDATE users SET points = points + $1, last_claim_date = NOW() WHERE id = $2\<close>.
  \<open>db_now\<close> is the clock of the database, which evaluates \<^verbatim>\<open>NOW()\<close>; it is not the clock
  of the handler.\<close>

definition credit_claim :: "int \<Rightarrow> nat \<Rightarrow> user list \<Rightarrow> user list" where
  "credit_claim db_now uid us =
     map (\<lambda>u. if u_id u = uid
               then u\<lparr>points := points u + pointsToAdd, last_claim_date := Some db_now\<rparr>
               else u) us"

definition credit_claim_refused :: "nat \<Rightarrow> user list \<Rightarrow> bool" where
  "credit_claim_refused uid us \<longleftrightarrow>
     list_ex (\<lambda>u. u_id u = uid \<and> \<not> int4 (points u + pointsToAdd)) us"

text \<open>
  \<^verbatim>\<open>hoursSinceClaim = Math.abs(now - lastClaim) / 36e5; if (hoursSinceClaim < cooldownHours)\<close>
  is written on milliseconds: \<open>\<bar>now - lastClaim\<bar> < cooldownHours * hour_ms\<close>. \<open>now\<close> is the
  handler's \<^verbatim>\<open>new Date()\<close>.
\<close>

text \<open>The \<^verbatim>\<open>if (lastClaim) { ... return res.status(429) ... }\<close> block: the remaining wait and
  the next instant when it returns, \<open>None\<close> when the handler goes on to the update.\<close>

definition cooldown :: "int \<Rightarrow> user \<Rightarrow> (int \<times> int) option" where
  "cooldown now u =
     (case last_claim_date u of
        Some lastClaim \<Rightarrow>
          if \<bar>now - lastClaim\<bar> < cooldownHours * hour_ms
          then Some (cooldownHours * hour_ms - \<bar>now - lastClaim\<bar>,
                     lastClaim + cooldownHours * hour_ms)
          else None
      | None \<Rightarrow> None)"

definition claim_free_points :: "db \<Rightarrow> nat \<Rightarrow> int \<Rightarrow> int \<Rightarrow> db \<times> claim_response" where
  "claim_free_points s uid now db_now =
     (case filter (\<lambda>u. u_id u = uid) (users s) of
        [] \<Rightarrow> (s, ClaimUserNotFound)
      | u # _ \<Rightarrow>
          (case cooldown now u of
             Some (remaining, next) \<Rightarrow> (s, CooldownActive remaining next)
           | None \<Rightarrow>
               if credit_claim_refused uid (users s) then (s, ClaimFailed)
               else (s\<lparr>users := credit_claim db_now uid (users s)\<rparr>,
                     Claimed pointsToAdd (now + cooldownHours * hour_ms))))"

section \<open>The lifecycle sweep: \<^verbatim>\<open>cron.schedule('* * * * *', ...)\<close>\<close>

text \<open>\<^verbatim>\<open>UPDATE tournaments SET status = 'active' WHERE status = 'pending' AND start_time <= $1\<close>\<close>

definition start_due :: "int \<Rightarrow> tournament list \<Rightarrow> tournament list" where
  "start_due now ts =
     map (\<lambda>t. if status t = Pending \<and> start_time t \<le> now then t\<lparr>status := Active\<rparr> else t) ts"

text \<open>\<^verbatim>\<open>UPDATE tournaments SET status = 'closed' WHERE status = 'active' AND end_time <= $1\<close>\<close>

definition close_due :: "int \<Rightarrow> tournament list \<Rightarrow> tournament list" where
  "close_due now ts =
     map (\<lambda>t. if status t = Active \<and> end_time t \<le> now then t\<lparr>status := Closed\<rparr> else t) ts"

definition sweep :: "db \<Rightarrow> int \<Rightarrow> db" where
  "sweep s now = s\<lparr>tournaments := close_due now (start_due now (tournaments s))\<rparr>"

section \<open>Registration: \<^verbatim>\<open>POST /api/auth/register\<close>\<close>

record register_request =
  req_email :: "string option"
  req_wallet_address :: "string option"
  req_username :: "string option"
  req_password :: "string option"

text \<open>A request field is falsy in JavaScript when it is missing or the empty string.\<close>

definition truthy :: "string option \<Rightarrow> bool" where
  "truthy x \<longleftrightarrow> (case x of None \<Rightarrow> False | Some v \<Rightarrow> v \<noteq> [])"

definition is_lower :: "char \<Rightarrow> bool" where
  "is_lower c \<longleftrightarrow> 97 \<le> (of_char c :: nat) \<and> (of_char c :: nat) \<le> 122"

definition is_upper :: "char \<Rightarrow> bool" where
  "is_upper c \<longleftrightarrow> 65 \<le> (of_char c :: nat) \<and> (of_char c :: nat) \<le> 90"

definition is_digit :: "char \<Rightarrow> bool" where
  "is_digit c \<longleftrightarrow> 48 \<le> (of_char c :: nat) \<and> (of_char c :: nat) \<le> 57"

definition is_special :: "char \<Rightarrow> bool" where
  "is_special c \<longleftrightarrow> c \<in> set ''@$!-%*?&''"

text \<open>
  \<^verbatim>\<open>/^(?=.*[a-z])(?=.*[A-Z])(?=.*\d)(?=.*[@$!\-%*?&])[A-Za-z\d@$!\-%*?&]{8,}$/\<close>: at least
  eight characters, all of them from the four classes, and one of each class.
\<close>

definition passwordRegex :: "string \<Rightarrow> bool" where
  "passwordRegex p \<longleftrightarrow>
     8 \<le> length p
     \<and> list_all (\<lambda>c. is_lower c \<or> is_upper c \<or> is_digit c \<or> is_special c) p
     \<and> list_ex is_lower p \<and> list_ex is_upper p \<and> list_ex is_digit p \<and> list_ex is_special p"

datatype register_response =
  Registered nat
| RegisterRejected string
| RegisterServerError

text \<open>
  \<^verbatim>\<open>INSERT INTO users (email, username, password_hash, points) VALUES ($1, $2, $3, 1000)\<close>.
  The id is the next value of the sequence; the statement fails, with nothing changed,
  when the sequence has no value left in the range of the column. Otherwise the value is
  consumed whether or not the row is accepted; the row is refused when its id or its
  non-null email is already in the table (\<^verbatim>\<open>PRIMARY KEY\<close>, \<^verbatim>\<open>UNIQUE\<close>). The other columns
  take their defaults.
\<close>

definition insert_user :: "db \<Rightarrow> string option \<Rightarrow> string \<Rightarrow> db \<times> nat option" where
  "insert_user s em name =
     (let new_id = Suc (users_id_seq s);
          s1 = s\<lparr>users_id_seq := new_id\<rparr>
      in if \<not> int4 (int new_id) then (s, None)
         else if list_ex (\<lambda>u. u_id u = new_id \<or> (em \<noteq> None \<and> email u = em)) (users s)
         then (s1, None)
         else (s1\<lparr>users := users s @
                  [\<lparr>u_id = new_id, email = em, username = name, points = 1000,
                    total_tournaments = 0, won_tournaments = 0, last_claim_date = None\<rparr>]\<rparr>,
               Some new_id))"

definition register :: "db \<Rightarrow> register_request \<Rightarrow> db \<times> register_response" where
  "register s r =
     (if \<not> truthy (req_email r) \<and> \<not> truthy (req_wallet_address r)
      then (s, RegisterRejected ''Email or wallet address required'')
      else if \<not> truthy (req_username r)
      then (s, RegisterRejected ''Username required'')
      else if truthy (req_email r) \<and> truthy (req_password r)
              \<and> \<not> passwordRegex (the (req_password r))
      then (s, RegisterRejected ''Password must be at least 8 characters with uppercase, lowercase, number, and special character (@$!%*?&-)'')
      else (case insert_user s (if truthy (req_email r) then req_email r else None)
                                (the (req_username r)) of
              (s', Some new_id) \<Rightarrow> (s', Registered new_id)
            | (s', None) \<Rightarrow> (s', RegisterServerError)))"

section \<open>Sequences of operations\<close>

datatype operation =
  Register register_request
| Enter nat nat string
| Resolve nat string
| ClaimFree nat int int
| Sweep int

fun step :: "db \<Rightarrow> operation \<Rightarrow> db" where
  "step s (Register r) = fst (register s r)"
| "step s (Enter tid uid pred) = fst (enter s tid uid pred)"
| "step s (Resolve tid answer) = fst (resolve s tid answer)"
| "step s (ClaimFree uid now db_now) = fst (claim_free_points s uid now db_now)"
| "step s (Sweep now) = sweep s now"

fun run :: "db \<Rightarrow> operation list \<Rightarrow> db" where
  "run s [] = s"
| "run s (x # xs) = run (step s x) xs"

section \<open>The lifecycle order\<close>

text \<open>The order \<^verbatim>\<open>pending\<close>, \<^verbatim>\<open>active\<close>, \<^verbatim>\<open>closed\<close>, \<^verbatim>\<open>resolved\<close> of the
  specification's state machine. \<open>forward t t'\<close>: the row \<open>t'\<close> is the row \<open>t\<close> at the same or a
  later status, and a resolved row stays resolved. \<open>not_newly_resolved t t'\<close>: \<open>t'\<close> is
  resolved only if \<open>t\<close> already was.\<close>

fun lifecycle_rank :: "status \<Rightarrow> nat" where
  "lifecycle_rank Pending = 0"
| "lifecycle_rank Active = 1"
| "lifecycle_rank Closed = 2"
| "lifecycle_rank Resolved = 3"

definition forward :: "tournament \<Rightarrow> tournament \<Rightarrow> bool" where
  "forward t t' \<longleftrightarrow>
     t_id t' = t_id t \<and> lifecycle_rank (status t) \<le> lifecycle_rank (status t')
     \<and> (status t = Resolved \<longrightarrow> status t' = Resolved)"

definition not_newly_resolved :: "tournament \<Rightarrow> tournament \<Rightarrow> bool" where
  "not_newly_resolved t t' \<longleftrightarrow> (status t' = Resolved \<longrightarrow> status t = Resolved)"

text \<open>What one run of the sweep does to one row: the first \<^verbatim>\<open>UPDATE\<close>, then the second.\<close>

definition sweep_row :: "int \<Rightarrow> tournament \<Rightarrow> tournament" where
  "sweep_row now t =
     (let t1 = (if status t = Pending \<and> start_time t \<le> now then t\<lparr>status := Active\<rparr> else t)
      in if status t1 = Active \<and> end_time t1 \<le> now then t1\<lparr>status := Closed\<rparr> else t1)"

section \<open>Invariants of the specification\<close>

text \<open>At most one participant row for a pair of tournament and user.\<close>

definition entry_key :: "participant \<Rightarrow> nat \<times> nat" where
  "entry_key p = (tournament_id p, user_id p)"

definition one_entry_per_pair :: "db \<Rightarrow> bool" where
  "one_entry_per_pair s \<longleftrightarrow> distinct (map entry_key (participants s))"

text \<open>A valid state for the ledger: no balance, entry fee or prize pool is negative.\<close>

definition valid_state :: "db \<Rightarrow> bool" where
  "valid_state s \<longleftrightarrow>
     (\<forall>u \<in> set (users s). 0 \<le> points u)
     \<and> (\<forall>t \<in> set (tournaments s). 0 \<le> entry_fee t \<and> 0 \<le> prize_pool t)"

text \<open>The participant rows of a tournament; the counters of every tournament agree with
  them; every row paid the entry fee of its tournament.\<close>

definition entries_of :: "db \<Rightarrow> nat \<Rightarrow> participant list" where
  "entries_of s tid = filter (\<lambda>p. tournament_id p = tid) (participants s)"

definition counters_consistent :: "db \<Rightarrow> bool" where
  "counters_consistent s \<longleftrightarrow>
     (\<forall>t \<in> set (tournaments s).
        current_participants t = int (length (entries_of s (t_id t)))
        \<and> current_participants t \<le> max_participants t
        \<and> prize_pool t = sum_list (map points_paid (entries_of s (t_id t))))"

definition fees_as_charged :: "db \<Rightarrow> bool" where
  "fees_as_charged s \<longleftrightarrow>
     (\<forall>t \<in> set (tournaments s). \<forall>p \<in> set (entries_of s (t_id t)). points_paid p = entry_fee t)"

text \<open>A row update that leaves id, counters, capacity and fee alone.\<close>

definition keeps_counters :: "(tournament \<Rightarrow> tournament) \<Rightarrow> bool" where
  "keeps_counters f \<longleftrightarrow>
     (\<forall>t. t_id (f t) = t_id t \<and> current_participants (f t) = current_participants t
          \<and> max_participants (f t) = max_participants t \<and> prize_pool (f t) = prize_pool t
          \<and> entry_fee (f t) = entry_fee t)"

section \<open>Example data\<close>

text \<open>A user with 1000 points and the first sample tournament of \<^verbatim>\<open>createSampleTournaments\<close>
  (entry fee 100, 50 places), active and still empty.\<close>

definition demo_user :: user where
  "demo_user = \<lparr>u_id = 1, email = Some ''demo@test.com'', username = ''DemoUser'',
                 points = 1000, total_tournaments = 0, won_tournaments = 0,
                 last_claim_date = None\<rparr>"

definition demo_tournament :: tournament where
  "demo_tournament = \<lparr>t_id = 1, options = [''Above $45,000'', ''Below $45,000''],
                       entry_fee = 100, max_participants = 50, current_participants = 0,
                       prize_pool = 0, start_time = 0, end_time = 7200000,
                       status = Active, correct_answer = None\<rparr>"

definition demo_db :: db where
  "demo_db = \<lparr>users = [demo_user], tournaments = [demo_tournament], participants = [],
               users_id_seq = 1\<rparr>"

text \<open>The same database with the tournament withdrawn, still pending, full, and already
  entered by the user.\<close>

definition no_tournament_db :: db where
  "no_tournament_db = demo_db\<lparr>tournaments := []\<rparr>"

definition pending_db :: db where
  "pending_db = demo_db\<lparr>tournaments := [demo_tournament\<lparr>status := Pending\<rparr>]\<rparr>"

definition poor_user :: user where
  "poor_user = demo_user\<lparr>points := 99\<rparr>"

definition poor_db :: db where
  "poor_db = demo_db\<lparr>users := [poor_user]\<rparr>"

definition full_tournament :: tournament where
  "full_tournament = demo_tournament\<lparr>current_participants := 50\<rparr>"

definition full_db :: db where
  "full_db = demo_db\<lparr>tournaments := [full_tournament]\<rparr>"

definition entered_db :: db where
  "entered_db = fst (enter demo_db 1 1 ''Above $45,000'')"

text \<open>A closed tournament with four entries at fee 25: three users predicted \<^verbatim>\<open>Yes\<close>, one
  \<^verbatim>\<open>No\<close>.\<close>

definition settle_user :: "nat \<Rightarrow> user" where
  "settle_user i = \<lparr>u_id = i, email = None, username = ''player'', points = 900,
                     total_tournaments = 0, won_tournaments = 0, last_claim_date = None\<rparr>"

definition settle_tournament :: tournament where
  "settle_tournament = \<lparr>t_id = 1, options = [''Yes'', ''No''],
                         entry_fee = 25, max_participants = 50, current_participants = 4,
                         prize_pool = 100, start_time = 0, end_time = 7200000,
                         status = Closed, correct_answer = None\<rparr>"

definition settle_entry :: "nat \<Rightarrow> string \<Rightarrow> participant" where
  "settle_entry i p = \<lparr>tournament_id = 1, user_id = i, prediction = p, points_paid = 25\<rparr>"

definition settle_db :: db where
  "settle_db = \<lparr>users = [settle_user 1, settle_user 2, settle_user 3, settle_user 4],
                 tournaments = [settle_tournament],
                 participants = [settle_entry 1 ''Yes'', settle_entry 2 ''Yes'',
                                 settle_entry 3 ''Yes'', settle_entry 4 ''No''],
                 users_id_seq = 4\<rparr>"

text \<open>The demo user after a free claim at time 1000 of the handler's clock and 1250 of the
  database's.\<close>

definition claimed_user :: user where
  "claimed_user = demo_user\<lparr>points := 1500, last_claim_date := Some 1250\<rparr>"

definition claimed_db :: db where
  "claimed_db = demo_db\<lparr>users := [claimed_user]\<rparr>"

text \<open>The settled tournament after its resolution with \<^verbatim>\<open>Yes\<close>.\<close>

definition resolved_db :: db where
  "resolved_db = fst (resolve settle_db 1 ''Yes'')"

text \<open>A registration and a sequence of operations on the demo database.\<close>

definition demo_request :: register_request where
  "demo_request = \<lparr>req_email = Some ''new@test.com'', req_wallet_address = None,
                    req_username = Some ''Newcomer'', req_password = Some ''Passw0rd!''\<rparr>"

definition demo_ops :: "operation list" where
  "demo_ops = [Register demo_request, Enter 1 1 ''Above $45,000'', Enter 1 2 ''Below $45,000'',
               ClaimFree 2 1000 1250, Sweep 7200000, Resolve 1 ''Above $45,000'']"

text \<open>The demo database with a single place in the tournament.\<close>

definition single_seat_db :: db where
  "single_seat_db = demo_db\<lparr>tournaments := [demo_tournament\<lparr>max_participants := 1\<rparr>]\<rparr>"

text \<open>The demo tournament with its prize pool at the top of the \<^verbatim>\<open>INTEGER\<close> range.\<close>

definition brimful_tournament :: tournament where
  "brimful_tournament = demo_tournament\<lparr>prize_pool := 2147483647\<rparr>"

definition brimful_db :: db where
  "brimful_db = demo_db\<lparr>tournaments := [brimful_tournament]\<rparr>"

text \<open>The settled tournament with its first winner at the top of the range, and an active
  tournament whose only participant is.\<close>

definition rich_settle_db :: db where
  "rich_settle_db =
     settle_db\<lparr>users := [(settle_user 1)\<lparr>points := 2147483647\<rparr>, settle_user 2, settle_user 3,
                          settle_user 4]\<rparr>"

definition rich_active_db :: db where
  "rich_active_db =
     \<lparr>users = [demo_user\<lparr>points := 2147483647\<rparr>],
      tournaments = [demo_tournament\<lparr>current_participants := 1, prize_pool := 100\<rparr>],
      participants = [\<lparr>tournament_id = 1, user_id = 1, prediction = ''Above $45,000'',
                       points_paid = 100\<rparr>],
      users_id_seq = 1\<rparr>"

text \<open>A user whose last claim is stamped 100000000 ms (27.7 hours) after time 1000, and a
  user who never claimed and holds the largest balance.\<close>

definition ahead_user :: user where
  "ahead_user = demo_user\<lparr>last_claim_date := Some 100001000\<rparr>"

definition ahead_db :: db where
  "ahead_db = demo_db\<lparr>users := [ahead_user]\<rparr>"

definition wealthy_user :: user where
  "wealthy_user = demo_user\<lparr>points := 2147483647\<rparr>"

definition wealthy_db :: db where
  "wealthy_db = demo_db\<lparr>users := [wealthy_user]\<rparr>"

section \<open>Lookup lemmas\<close>

lemma filter_key_unique:
  "distinct (map f xs) \<Longrightarrow> x \<in> set xs \<Longrightarrow> filter (\<lambda>y. f y = f x) xs = [x]"
proof (induction xs)
  case Nil
  then show ?case by simp
next
  case (Cons a xs)
  show ?case
  proof (cases "a = x")
    case True
    from Cons.prems have "f x \<notin> f ` set xs" using True by simp
    then have "\<forall>y\<in>set xs. f y \<noteq> f x" by (metis imageI)
    then have "filter (\<lambda>y. f y = f x) xs = []"
      by (simp add: filter_empty_conv)
    with True show ?thesis by simp
  next
    case False
    with Cons.prems have "x \<in> set xs" "f a \<noteq> f x" by auto
    with Cons show ?thesis by simp
  qed
qed

lemma product_Nil_right: "List.product xs [] = []"
  by (induction xs) simp_all

lemma key_eq_iff:
  "distinct (map f xs) \<Longrightarrow> x \<in> set xs \<Longrightarrow> y \<in> set xs \<Longrightarrow> f y = f x \<longleftrightarrow> y = x"
  by (auto simp: distinct_map dest: inj_onD)

lemma enter_select_unique:
  assumes "pk_ok s"
    and "t \<in> set (tournaments s)" and "status t = Active"
    and "u \<in> set (users s)"
  shows "enter_select s (t_id t) (u_id u) = [(t, u)]"
proof -
  have "filter (\<lambda>x. t_id x = t_id t) (tournaments s) = [t]"
    using assms by (simp add: pk_ok_def filter_key_unique)
  then have "filter (\<lambda>x. status x = Active) (filter (\<lambda>x. t_id x = t_id t) (tournaments s)) = [t]"
    using assms by simp
  then have ts: "filter (\<lambda>x. t_id x = t_id t \<and> status x = Active) (tournaments s) = [t]"
    by (simp add: conj_commute)
  have us: "filter (\<lambda>x. u_id x = u_id u) (users s) = [u]"
    using assms by (simp add: pk_ok_def filter_key_unique)
  show ?thesis by (simp add: enter_select_def ts us)
qed

lemma debit_points_unique:
  assumes "distinct (map u_id us)" and "u \<in> set us"
  shows "debit_points fee (u_id u) us =
         map (\<lambda>v. if v = u then u\<lparr>points := points u - fee\<rparr> else v) us"
  unfolding debit_points_def
  by (rule map_cong) (use assms key_eq_iff [of u_id us u] in auto)

lemma add_entry_unique:
  assumes "distinct (map t_id ts)" and "t \<in> set ts"
  shows "add_entry fee (t_id t) ts =
         map (\<lambda>x. if x = t
                   then t\<lparr>current_participants := current_participants t + 1,
                          prize_pool := prize_pool t + fee\<rparr>
                   else x) ts"
  unfolding add_entry_def
  by (rule map_cong) (use assms key_eq_iff [of t_id ts t] in auto)

lemma ball_interval_Suc:
  "(\<forall>j \<in> {1 .. Suc n}. Q j) \<longleftrightarrow> Q 1 \<and> (\<forall>j \<in> {1 .. n}. Q (Suc j))"
proof
  assume a: "\<forall>j \<in> {1 .. Suc n}. Q j"
  then have "Q 1" by simp
  moreover have "\<forall>j \<in> {1 .. n}. Q (Suc j)" using a by simp
  ultimately show "Q 1 \<and> (\<forall>j \<in> {1 .. n}. Q (Suc j))" by simp
next
  assume b: "Q 1 \<and> (\<forall>j \<in> {1 .. n}. Q (Suc j))"
  show "\<forall>j \<in> {1 .. Suc n}. Q j"
  proof
    fix j assume j: "j \<in> {1 .. Suc n}"
    show "Q j"
    proof (cases "j = 1")
      case True
      with b show ?thesis by simp
    next
      case False
      with j obtain k where "j = Suc k" "k \<in> {1 .. n}"
        by (cases j) auto
      with b show ?thesis by simp
    qed
  qed
qed

lemma credit_winner_map:
  "credit_winner prize i us =
     map (\<lambda>u. if u_id u = i
               then u\<lparr>points := points u + prize, won_tournaments := won_tournaments u + 1\<rparr>
               else u) us"
  by (simp add: credit_winner_def)

lemma ball_set_map: "(\<forall>y \<in> set (map f xs). P y) \<longleftrightarrow> (\<forall>x \<in> set xs. P (f x))"
  by simp

lemma credits_in_range_Cons:
  assumes "\<not> credit_winner_refused prize i us"
  shows "credits_in_range prize (i # ids) us \<longleftrightarrow>
         credits_in_range prize ids (credit_winner prize i us)"
proof -
  define c :: "user \<Rightarrow> user" where "c = (\<lambda>u. if u_id u = i
      then u\<lparr>points := points u + prize, won_tournaments := won_tournaments u + 1\<rparr> else u)"
  have ok: "\<And>u. u \<in> set us \<Longrightarrow> u_id u = i \<Longrightarrow>
              int4 (points u + prize) \<and> int4 (won_tournaments u + 1)"
    using assms by (auto simp: credit_winner_refused_def list_ex_iff)
  have row: "(\<forall>j \<in> {1 .. count_list (i # ids) (u_id u)}.
               int4 (points u + prize * int j) \<and> int4 (won_tournaments u + int j)) \<longleftrightarrow>
             (\<forall>j \<in> {1 .. count_list ids (u_id (c u))}.
               int4 (points (c u) + prize * int j) \<and> int4 (won_tournaments (c u) + int j))"
    if u: "u \<in> set us" for u
  proof (cases "u_id u = i")
    case True
    with ok u have one: "int4 (points u + prize) \<and> int4 (won_tournaments u + 1)" by simp
    have "count_list (i # ids) (u_id u) = Suc (count_list ids (u_id u))"
      using True by simp
    then have "(\<forall>j \<in> {1 .. count_list (i # ids) (u_id u)}.
               int4 (points u + prize * int j) \<and> int4 (won_tournaments u + int j)) \<longleftrightarrow>
          (int4 (points u + prize * int 1) \<and> int4 (won_tournaments u + int 1))
          \<and> (\<forall>j \<in> {1 .. count_list ids (u_id u)}.
               int4 (points u + prize * int (Suc j)) \<and> int4 (won_tournaments u + int (Suc j)))"
      by (simp only: ball_interval_Suc)
    also have "\<dots> \<longleftrightarrow> (\<forall>j \<in> {1 .. count_list ids (u_id u)}.
               int4 (points u + prize + prize * int j) \<and> int4 (won_tournaments u + 1 + int j))"
      using one by (simp add: algebra_simps del: atLeastAtMost_iff)
    finally show ?thesis using True by (simp add: c_def)
  next
    case False
    then show ?thesis by (simp add: c_def)
  qed
  have "credits_in_range prize (i # ids) us \<longleftrightarrow>
        (\<forall>u \<in> set us. \<forall>j \<in> {1 .. count_list ids (u_id (c u))}.
               int4 (points (c u) + prize * int j) \<and> int4 (won_tournaments (c u) + int j))"
    unfolding credits_in_range_def using row by blast
  also have "\<dots> \<longleftrightarrow> credits_in_range prize ids (map c us)"
    unfolding credits_in_range_def by (simp only: ball_set_map)
  finally show ?thesis
    by (simp add: credit_winner_def c_def)
qed

lemma credits_in_range_refused:
  assumes "credit_winner_refused prize i us"
  shows "\<not> credits_in_range prize (i # ids) us"
proof -
  from assms obtain u where u: "u \<in> set us" "u_id u = i"
    and bad: "\<not> (int4 (points u + prize) \<and> int4 (won_tournaments u + 1))"
    by (auto simp: credit_winner_refused_def list_ex_iff)
  have "1 \<in> {1 .. count_list (i # ids) (u_id u)}"
    using u by simp
  with bad have "\<exists>j \<in> {1 .. count_list (i # ids) (u_id u)}.
      \<not> (int4 (points u + prize * int j) \<and> int4 (won_tournaments u + int j))"
    by (intro bexI [of _ 1]) simp_all
  with u show ?thesis
    unfolding credits_in_range_def by blast
qed

lemma credited_credit_winner:
  "map (credited prize ids) (credit_winner prize i us) = map (credited prize (i # ids)) us"
  by (simp add: credit_winner_def credited_def algebra_simps)

lemma pay_winners_eq:
  "pay_winners prize ws us =
     (if credits_in_range prize (map fst ws) us
      then Some (map (credited prize (map fst ws)) us) else None)"
proof (induction ws arbitrary: us)
  case Nil
  show ?case
    by (simp add: credits_in_range_def credited_def map_idI)
next
  case (Cons w ws)
  show ?case
  proof (cases "credit_winner_refused prize (fst w) us")
    case True
    then show ?thesis
      using credits_in_range_refused [of prize "fst w" us "map fst ws"] by simp
  next
    case False
    then show ?thesis
      using credits_in_range_Cons [of prize "fst w" us "map fst ws"]
      by (simp add: Cons.IH credited_credit_winner del: count_list.simps)
  qed
qed

lemma mark_resolved_filter:
  assumes "distinct (map t_id ts)" and "t \<in> set ts"
  shows "filter (\<lambda>x. t_id x = t_id t) (mark_resolved (t_id t) answer ts) =
         [t\<lparr>status := Resolved, correct_answer := Some answer\<rparr>]"
proof -
  have "filter (\<lambda>x. t_id x = t_id t) (mark_resolved (t_id t) answer ts) =
        map (\<lambda>x. x\<lparr>status := Resolved, correct_answer := Some answer\<rparr>) (filter (\<lambda>x. t_id x = t_id t) ts)"
    unfolding mark_resolved_def by (induction ts) auto
  then show ?thesis using assms by (simp add: filter_key_unique)
qed

lemma concat_map_single:
  "(\<And>p. p \<in> set ps \<Longrightarrow> g p = [r]) \<Longrightarrow> concat (map (\<lambda>p. map (h p) (g p)) ps) = map (\<lambda>p. h p r) ps"
  by (induction ps) auto

lemma select_winners_unique:
  assumes "pk_ok s" and "t \<in> set (tournaments s)"
  shows "select_winners (s\<lparr>tournaments := mark_resolved (t_id t) answer (tournaments s)\<rparr>) (t_id t) answer =
         map (\<lambda>p. (user_id p, prize_pool t))
             (filter (\<lambda>p. tournament_id p = t_id t \<and> prediction p = answer) (participants s))"
proof -
  let ?W = "filter (\<lambda>p. tournament_id p = t_id t \<and> prediction p = answer) (participants s)"
  let ?r = "t\<lparr>status := Resolved, correct_answer := Some answer\<rparr>"
  have "concat (map (\<lambda>p. map (\<lambda>x. (user_id p, prize_pool x))
                  (filter (\<lambda>x. t_id x = tournament_id p)
                     (mark_resolved (t_id t) answer (tournaments s)))) ?W) =
        map (\<lambda>p. (user_id p, prize_pool ?r)) ?W"
    by (rule concat_map_single) (use assms in \<open>simp add: pk_ok_def mark_resolved_filter\<close>)
  then show ?thesis
    by (simp add: select_winners_def)
qed


lemma mark_resolved_unique:
  assumes "distinct (map t_id ts)" and "t \<in> set ts"
  shows "mark_resolved (t_id t) answer ts =
         map (\<lambda>x. if x = t then t\<lparr>status := Resolved, correct_answer := Some answer\<rparr> else x) ts"
  unfolding mark_resolved_def
  by (rule map_cong) (use assms key_eq_iff [of t_id ts t] in auto)

lemma mark_resolved_absent:
  "\<forall>t \<in> set ts. t_id t \<noteq> tid \<Longrightarrow> mark_resolved tid answer ts = ts"
  by (simp add: mark_resolved_def map_idI)

lemma select_winners_absent:
  assumes "\<forall>t \<in> set (tournaments s). t_id t \<noteq> tid"
  shows "select_winners s tid answer = []"
proof -
  have "\<And>p. p \<in> set (filter (\<lambda>p. tournament_id p = tid \<and> prediction p = answer) (participants s)) \<Longrightarrow>
          filter (\<lambda>t. t_id t = tournament_id p) (tournaments s) = []"
    using assms by (simp add: filter_empty_conv)
  then show ?thesis
    unfolding select_winners_def concat_eq_Nil_conv by simp
qed

lemma resolve_cases:
  obtains (none) "resolve s tid answer =
             (s\<lparr>tournaments := mark_resolved tid answer (tournaments s)\<rparr>, ResolvedNoWinners)"
  | (failed) w ws where
      "select_winners (s\<lparr>tournaments := mark_resolved tid answer (tournaments s)\<rparr>) tid answer
         = w # ws"
      "\<not> credits_in_range (snd w div int (length (w # ws))) (map fst (w # ws)) (users s)"
      "resolve s tid answer = (s, ResolveFailed)"
  | (paid) w ws where
      "select_winners (s\<lparr>tournaments := mark_resolved tid answer (tournaments s)\<rparr>) tid answer
         = w # ws"
      "credits_in_range (snd w div int (length (w # ws))) (map fst (w # ws)) (users s)"
      "resolve s tid answer =
       (s\<lparr>tournaments := mark_resolved tid answer (tournaments s),
          users := map (credited (snd w div int (length (w # ws))) (map fst (w # ws))) (users s)\<rparr>,
        ResolvedWinners (length (w # ws)) (snd w div int (length (w # ws))))"
proof (cases "select_winners (s\<lparr>tournaments := mark_resolved tid answer (tournaments s)\<rparr>) tid answer")
  case Nil
  then have "resolve s tid answer =
             (s\<lparr>tournaments := mark_resolved tid answer (tournaments s)\<rparr>, ResolvedNoWinners)"
    unfolding resolve_def Let_def by simp
  then show ?thesis by (rule none)
next
  case (Cons w ws)
  show ?thesis
  proof (cases "credits_in_range (snd w div int (length (w # ws))) (map fst (w # ws)) (users s)")
    case True
    with Cons have "resolve s tid answer =
       (s\<lparr>tournaments := mark_resolved tid answer (tournaments s),
          users := map (credited (snd w div int (length (w # ws))) (map fst (w # ws))) (users s)\<rparr>,
        ResolvedWinners (length (w # ws)) (snd w div int (length (w # ws))))"
      unfolding resolve_def Let_def pay_winners_eq by simp
    with Cons True show ?thesis by (rule paid)
  next
    case False
    with Cons have "resolve s tid answer = (s, ResolveFailed)"
      unfolding resolve_def Let_def pay_winners_eq by simp
    with Cons False show ?thesis by (rule failed)
  qed
qed

lemma resolve_failed_state:
  "snd (resolve s tid answer) = ResolveFailed \<Longrightarrow> fst (resolve s tid answer) = s"
  by (rule resolve_cases [of s tid answer]) simp_all

lemma resolve_tournaments:
  "tournaments (fst (resolve s tid answer)) =
     (if snd (resolve s tid answer) = ResolveFailed then tournaments s
      else mark_resolved tid answer (tournaments s))"
  by (rule resolve_cases [of s tid answer]) simp_all

lemma resolve_participants:
  "participants (fst (resolve s tid answer)) = participants s"
  by (rule resolve_cases [of s tid answer]) simp_all

lemma mark_resolved_status:
  "\<forall>t' \<in> set (mark_resolved tid answer ts).
     t_id t' = tid \<longrightarrow> status t' = Resolved \<and> correct_answer t' = Some answer"
  unfolding mark_resolved_def set_map ball_simps by (simp split: if_splits)

lemma credit_claim_unique:
  assumes "distinct (map u_id us)" and "u \<in> set us"
  shows "credit_claim db_now (u_id u) us =
         map (\<lambda>v. if v = u then u\<lparr>points := points u + 500, last_claim_date := Some db_now\<rparr>
                   else v) us"
  unfolding credit_claim_def pointsToAdd_def
  by (rule map_cong) (use assms key_eq_iff [of u_id us u] in auto)

section \<open>Case rules for the handlers\<close>

lemma enter_cases:
  obtains (failed) code msg where "enter s tid uid pred = (s, EnterFailed code msg)"
  | (entered) t u rest where
      "enter_select s tid uid = (t, u) # rest"
      "entry_fee t \<le> points u"
      "current_participants t < max_participants t"
      "existing_participation s tid uid = []"
      "enter s tid uid pred =
         (s\<lparr>users := debit_points (entry_fee t) uid (users s),
            participants := participants s @
              [\<lparr>tournament_id = tid, user_id = uid, prediction = pred,
                points_paid = entry_fee t\<rparr>],
            tournaments := add_entry (entry_fee t) tid (tournaments s)\<rparr>, EnterOk)"
proof (cases "enter_select s tid uid")
  case Nil
  then have "enter s tid uid pred =
      (s, EnterFailed (enter_status_code NotFoundOrNotActive) (enter_message NotFoundOrNotActive))"
    unfolding enter_def enter_tx_def by simp
  then show ?thesis by (rule failed)
next
  case (Cons r rest)
  obtain t u where r: "r = (t, u)" by (cases r)
  show ?thesis
  proof (cases "entry_fee t \<le> points u \<and> current_participants t < max_participants t
                \<and> existing_participation s tid uid = []
                \<and> \<not> debit_refused (entry_fee t) uid (users s)
                \<and> \<not> add_entry_refused (entry_fee t) tid (tournaments s)")
    case True
    with Cons r have "enter s tid uid pred =
         (s\<lparr>users := debit_points (entry_fee t) uid (users s),
            participants := participants s @
              [\<lparr>tournament_id = tid, user_id = uid, prediction = pred,
                points_paid = entry_fee t\<rparr>],
            tournaments := add_entry (entry_fee t) tid (tournaments s)\<rparr>, EnterOk)"
      unfolding enter_def enter_tx_def by simp
    with True Cons r show ?thesis by (intro entered [of t u rest]) simp_all
  next
    case False
    with Cons r have "\<exists>code msg. enter s tid uid pred = (s, EnterFailed code msg)"
      unfolding enter_def enter_tx_def by (auto simp: not_le not_less)
    then show ?thesis using failed by blast
  qed
qed

lemma claim_cases:
  obtains (unchanged) r where "claim_free_points s uid now db_now = (s, r)"
  | (claimed) "claim_free_points s uid now db_now =
       (s\<lparr>users := credit_claim db_now uid (users s)\<rparr>,
        Claimed pointsToAdd (now + cooldownHours * hour_ms))"
proof (cases "filter (\<lambda>u. u_id u = uid) (users s)")
  case Nil
  then have "claim_free_points s uid now db_now = (s, ClaimUserNotFound)"
    unfolding claim_free_points_def by simp
  then show ?thesis by (rule unchanged)
next
  case (Cons u rest)
  show ?thesis
  proof (cases "cooldown now u")
    case (Some c)
    obtain r n where "c = (r, n)" by (cases c)
    with Cons Some have "claim_free_points s uid now db_now = (s, CooldownActive r n)"
      unfolding claim_free_points_def by simp
    then show ?thesis by (rule unchanged)
  next
    case None
    show ?thesis
    proof (cases "credit_claim_refused uid (users s)")
      case True
      with Cons None have "claim_free_points s uid now db_now = (s, ClaimFailed)"
        unfolding claim_free_points_def by simp
      then show ?thesis by (rule unchanged)
    next
      case False
      with Cons None have "claim_free_points s uid now db_now =
         (s\<lparr>users := credit_claim db_now uid (users s)\<rparr>,
          Claimed pointsToAdd (now + cooldownHours * hour_ms))"
        unfolding claim_free_points_def by simp
      then show ?thesis by (rule claimed)
    qed
  qed
qed

lemma register_cases:
  obtains (rejected) r where "register s q = (s, r)"
  | (refused) "register s q = (s\<lparr>users_id_seq := Suc (users_id_seq s)\<rparr>, RegisterServerError)"
  | (inserted) em name where
      "\<forall>u \<in> set (users s). u_id u \<noteq> Suc (users_id_seq s)"
      "register s q =
         (s\<lparr>users_id_seq := Suc (users_id_seq s),
            users := users s @
              [\<lparr>u_id = Suc (users_id_seq s), email = em, username = name, points = 1000,
                total_tournaments = 0, won_tournaments = 0, last_claim_date = None\<rparr>]\<rparr>,
          Registered (Suc (users_id_seq s)))"
proof -
  let ?em = "if truthy (req_email q) then req_email q else None"
  let ?name = "the (req_username q)"
  let ?dup = "list_ex (\<lambda>u. u_id u = Suc (users_id_seq s) \<or> (?em \<noteq> None \<and> email u = ?em)) (users s)"
  consider (a) "\<not> truthy (req_email q) \<and> \<not> truthy (req_wallet_address q)"
    | (b) "\<not> (\<not> truthy (req_email q) \<and> \<not> truthy (req_wallet_address q))" "\<not> truthy (req_username q)"
    | (c) "\<not> (\<not> truthy (req_email q) \<and> \<not> truthy (req_wallet_address q))" "truthy (req_username q)"
          "truthy (req_email q) \<and> truthy (req_password q) \<and> \<not> passwordRegex (the (req_password q))"
    | (d) "\<not> (\<not> truthy (req_email q) \<and> \<not> truthy (req_wallet_address q))" "truthy (req_username q)"
          "\<not> (truthy (req_email q) \<and> truthy (req_password q) \<and> \<not> passwordRegex (the (req_password q)))"
    by blast
  then show ?thesis
  proof cases
    case a
    then have "\<exists>r. register s q = (s, r)" unfolding register_def by simp
    then show ?thesis using rejected by blast
  next
    case b
    then have "\<exists>r. register s q = (s, r)" unfolding register_def by simp
    then show ?thesis using rejected by blast
  next
    case c
    then have "\<exists>r. register s q = (s, r)" unfolding register_def by simp
    then show ?thesis using rejected by blast
  next
    case d
    have c1: "(\<not> truthy (req_email q) \<and> \<not> truthy (req_wallet_address q)) = False"
      using d(1) by simp
    have c2: "(\<not> truthy (req_username q)) = False"
      using d(2) by simp
    have c3: "(truthy (req_email q) \<and> truthy (req_password q)
               \<and> \<not> passwordRegex (the (req_password q))) = False"
      using d(3) by simp
    have reg: "register s q =
        (case insert_user s ?em ?name of
              (s', Some new_id) \<Rightarrow> (s', Registered new_id)
            | (s', None) \<Rightarrow> (s', RegisterServerError))"
      unfolding register_def c1 c2 c3 by (simp only: if_False)
    show ?thesis
    proof (cases "int4 (int (Suc (users_id_seq s)))")
      case False
      then have "insert_user s ?em ?name = (s, None)"
        unfolding insert_user_def Let_def by simp
      with reg have "register s q = (s, RegisterServerError)"
        by simp
      then show ?thesis by (rule rejected)
    next
      case seq: True
      show ?thesis
    proof (cases ?dup)
      case True
      with seq have "insert_user s ?em ?name = (s\<lparr>users_id_seq := Suc (users_id_seq s)\<rparr>, None)"
        unfolding insert_user_def Let_def by simp
      with reg have "register s q = (s\<lparr>users_id_seq := Suc (users_id_seq s)\<rparr>, RegisterServerError)"
        by simp
      then show ?thesis by (rule refused)
    next
      case False
      with seq have ins: "insert_user s ?em ?name =
        (s\<lparr>users_id_seq := Suc (users_id_seq s),
            users := users s @
              [\<lparr>u_id = Suc (users_id_seq s), email = ?em, username = ?name, points = 1000,
                total_tournaments = 0, won_tournaments = 0, last_claim_date = None\<rparr>]\<rparr>,
         Some (Suc (users_id_seq s)))"
        unfolding insert_user_def Let_def by simp
      from False have fresh: "\<forall>u \<in> set (users s). u_id u \<noteq> Suc (users_id_seq s)"
        unfolding list_ex_iff by blast
      from reg ins have "register s q =
         (s\<lparr>users_id_seq := Suc (users_id_seq s),
            users := users s @
              [\<lparr>u_id = Suc (users_id_seq s), email = ?em, username = ?name, points = 1000,
                total_tournaments = 0, won_tournaments = 0, last_claim_date = None\<rparr>]\<rparr>,
          Registered (Suc (users_id_seq s)))"
        by simp
      with fresh show ?thesis by (rule inserted)
    qed
    qed
  qed
qed

section \<open>Lifecycle lemmas\<close>

lemma list_all2_map_self:
  "(\<And>x. x \<in> set xs \<Longrightarrow> P x (f x)) \<Longrightarrow> list_all2 P xs (map f xs)"
  by (induction xs) simp_all

lemma rank_le_Resolved: "lifecycle_rank st \<le> 3"
  by (cases st) simp_all

lemma forward_refl: "list_all2 forward ts ts"
  by (simp add: list_all2_same forward_def)

lemma forward_add_entry: "list_all2 forward ts (add_entry fee tid ts)"
  unfolding add_entry_def by (rule list_all2_map_self) (simp add: forward_def)

lemma forward_mark_resolved: "list_all2 forward ts (mark_resolved tid answer ts)"
  unfolding mark_resolved_def
  by (rule list_all2_map_self) (simp add: forward_def rank_le_Resolved)

lemma sweep_rows: "close_due now (start_due now ts) = map (sweep_row now) ts"
  by (simp add: close_due_def start_due_def sweep_row_def Let_def comp_def)

lemma forward_sweep_row: "forward t (sweep_row now t)"
  by (cases "status t") (simp_all add: forward_def sweep_row_def Let_def)

lemma sweep_row_not_newly: "not_newly_resolved t (sweep_row now t)"
  by (cases "status t") (simp_all add: not_newly_resolved_def sweep_row_def Let_def)

lemma sweep_row_idem: "sweep_row now (sweep_row now t) = sweep_row now t"
  by (cases "status t") (simp_all add: sweep_row_def Let_def)

lemma forward_step: "list_all2 forward (tournaments s) (tournaments (step s x))"
proof (cases x)
  case (Register q)
  show ?thesis
    by (rule register_cases [of s q]) (simp_all add: Register forward_refl)
next
  case (Enter tid uid pred)
  show ?thesis
    by (rule enter_cases [of s tid uid pred]) (simp_all add: Enter forward_refl forward_add_entry)
next
  case (Resolve tid answer)
  then show ?thesis
    by (simp add: resolve_tournaments forward_mark_resolved forward_refl)
next
  case (ClaimFree uid now db_now)
  show ?thesis
    by (rule claim_cases [of s uid now db_now]) (simp_all add: ClaimFree forward_refl)
next
  case (Sweep now)
  then show ?thesis
    by (simp add: sweep_def sweep_rows list_all2_map_self forward_sweep_row)
qed

lemma forward_trans: "forward a b \<Longrightarrow> forward b c \<Longrightarrow> forward a c"
  by (auto simp: forward_def)

lemma forward_run: "list_all2 forward (tournaments s) (tournaments (run s xs))"
proof (induction xs arbitrary: s)
  case Nil
  show ?case by (simp add: forward_refl)
next
  case (Cons x xs)
  have "list_all2 forward (tournaments s) (tournaments (step s x))"
    by (rule forward_step)
  moreover have "list_all2 forward (tournaments (step s x)) (tournaments (run (step s x) xs))"
    by (rule Cons.IH)
  ultimately have "list_all2 forward (tournaments s) (tournaments (run (step s x) xs))"
    by (rule list_all2_trans [rotated]) (rule forward_trans)
  then show ?case by simp
qed


lemma not_newly_refl: "list_all2 not_newly_resolved ts ts"
  by (simp add: list_all2_same not_newly_resolved_def)

lemma not_newly_add_entry: "list_all2 not_newly_resolved ts (add_entry fee tid ts)"
  unfolding add_entry_def by (rule list_all2_map_self) (simp add: not_newly_resolved_def)

lemma not_newly_step:
  assumes "\<forall>tid answer. x \<noteq> Resolve tid answer"
  shows "list_all2 not_newly_resolved (tournaments s) (tournaments (step s x))"
proof (cases x)
  case (Register q)
  show ?thesis
    by (rule register_cases [of s q]) (simp_all add: Register not_newly_refl)
next
  case (Enter tid uid pred)
  show ?thesis
    by (rule enter_cases [of s tid uid pred])
       (simp_all add: Enter not_newly_refl not_newly_add_entry)
next
  case (Resolve tid answer)
  with assms show ?thesis by simp
next
  case (ClaimFree uid now db_now)
  show ?thesis
    by (rule claim_cases [of s uid now db_now]) (simp_all add: ClaimFree not_newly_refl)
next
  case (Sweep now)
  then show ?thesis
    by (simp add: sweep_def sweep_rows list_all2_map_self sweep_row_not_newly)
qed

lemma not_newly_trans:
  "not_newly_resolved a b \<Longrightarrow> not_newly_resolved b c \<Longrightarrow> not_newly_resolved a c"
  by (simp add: not_newly_resolved_def)

lemma not_newly_run:
  "\<forall>tid answer. Resolve tid answer \<notin> set xs \<Longrightarrow>
     list_all2 not_newly_resolved (tournaments s) (tournaments (run s xs))"
proof (induction xs arbitrary: s)
  case Nil
  show ?case by (simp add: not_newly_refl)
next
  case (Cons x xs)
  from Cons.prems have "\<forall>tid answer. x \<noteq> Resolve tid answer" by auto
  then have "list_all2 not_newly_resolved (tournaments s) (tournaments (step s x))"
    by (rule not_newly_step)
  moreover from Cons.prems have "\<forall>tid answer. Resolve tid answer \<notin> set xs" by auto
  then have "list_all2 not_newly_resolved (tournaments (step s x)) (tournaments (run (step s x) xs))"
    by (rule Cons.IH)
  ultimately have "list_all2 not_newly_resolved (tournaments s) (tournaments (run (step s x) xs))"
    by (rule list_all2_trans [rotated]) (rule not_newly_trans)
  then show ?case by simp
qed

lemma sweep_idem: "sweep (sweep s now) now = sweep s now"
  by (simp add: sweep_def sweep_rows sweep_row_idem)

section \<open>Invariant lemmas\<close>

lemma step_participants:
  obtains (same) "participants (step s x) = participants s"
  | (added) tid uid pred fee where
      "existing_participation s tid uid = []"
      "participants (step s x) =
         participants s @ [\<lparr>tournament_id = tid, user_id = uid, prediction = pred, points_paid = fee\<rparr>]"
proof (cases x)
  case (Register q)
  have "participants (step s x) = participants s"
    by (rule register_cases [of s q]) (simp_all add: Register)
  then show ?thesis by (rule same)
next
  case (Enter tid uid pred)
  show ?thesis
  proof (rule enter_cases [of s tid uid pred])
    fix code msg
    assume "enter s tid uid pred = (s, EnterFailed code msg)"
    then have "participants (step s x) = participants s" by (simp add: Enter)
    then show ?thesis by (rule same)
  next
    fix t u rest
    assume "existing_participation s tid uid = []"
      and "enter s tid uid pred =
         (s\<lparr>users := debit_points (entry_fee t) uid (users s),
            participants := participants s @
              [\<lparr>tournament_id = tid, user_id = uid, prediction = pred,
                points_paid = entry_fee t\<rparr>],
            tournaments := add_entry (entry_fee t) tid (tournaments s)\<rparr>, EnterOk)"
    then show ?thesis by (intro added [of tid uid pred "entry_fee t"]) (simp_all add: Enter)
  qed
next
  case (Resolve tid answer)
  then have "participants (step s x) = participants s"
    by (simp add: resolve_participants)
  then show ?thesis by (rule same)
next
  case (ClaimFree uid now db_now)
  have "participants (step s x) = participants s"
    by (rule claim_cases [of s uid now db_now]) (simp_all add: ClaimFree)
  then show ?thesis by (rule same)
next
  case (Sweep now)
  then have "participants (step s x) = participants s"
    by (simp add: sweep_def)
  then show ?thesis by (rule same)
qed

lemma one_entry_step: "one_entry_per_pair s \<Longrightarrow> one_entry_per_pair (step s x)"
proof (rule step_participants [of s x])
  assume "one_entry_per_pair s" "participants (step s x) = participants s"
  then show ?thesis by (simp add: one_entry_per_pair_def)
next
  fix tid uid pred fee
  assume inv: "one_entry_per_pair s"
    and fresh: "existing_participation s tid uid = []"
    and eq: "participants (step s x) =
         participants s @ [\<lparr>tournament_id = tid, user_id = uid, prediction = pred, points_paid = fee\<rparr>]"
  from fresh have "(tid, uid) \<notin> entry_key ` set (participants s)"
    by (auto simp: existing_participation_def filter_empty_conv entry_key_def)
  with inv eq show ?thesis
    by (simp add: one_entry_per_pair_def entry_key_def)
qed

lemma one_entry_run: "one_entry_per_pair s \<Longrightarrow> one_entry_per_pair (run s xs)"
  by (induction xs arbitrary: s) (simp_all add: one_entry_step)

lemma participants_kept_step: "\<exists>new. participants (step s x) = participants s @ new"
  by (rule step_participants [of s x]) simp_all

lemma participants_kept_run: "\<exists>new. participants (run s xs) = participants s @ new"
proof (induction xs arbitrary: s)
  case Nil
  show ?case by simp
next
  case (Cons x xs)
  obtain a where a: "participants (step s x) = participants s @ a"
    using participants_kept_step by blast
  obtain b where b: "participants (run (step s x) xs) = participants (step s x) @ b"
    using Cons.IH by blast
  from a b have "participants (run s (x # xs)) = participants s @ (a @ b)" by simp
  then show ?case by blast
qed

lemma debit_points_ids: "map u_id (debit_points fee uid us) = map u_id us"
  by (induction us) (simp_all add: debit_points_def)

lemma credit_winner_ids: "map u_id (credit_winner prize uid us) = map u_id us"
  by (induction us) (simp_all add: credit_winner_def)

lemma credited_ids: "map u_id (map (credited prize ids) us) = map u_id us"
  by (simp add: credited_def)

lemma credit_claim_ids: "map u_id (credit_claim db_now uid us) = map u_id us"
  by (induction us) (simp_all add: credit_claim_def)

lemma add_entry_ids: "map t_id (add_entry fee tid ts) = map t_id ts"
  by (induction ts) (simp_all add: add_entry_def)

lemma mark_resolved_ids: "map t_id (mark_resolved tid answer ts) = map t_id ts"
  by (induction ts) (simp_all add: mark_resolved_def)

lemma sweep_row_id: "t_id (sweep_row now t) = t_id t"
  by (simp add: sweep_row_def Let_def)

lemma sweep_ids: "map t_id (close_due now (start_due now ts)) = map t_id ts"
  by (simp add: sweep_rows comp_def sweep_row_id)

lemma pk_ok_step: "pk_ok s \<Longrightarrow> pk_ok (step s x)"
proof (cases x)
  case (Register q)
  assume pk: "pk_ok s"
  show ?thesis
  proof (rule register_cases [of s q])
    fix r assume "register s q = (s, r)"
    with pk show ?thesis by (simp add: Register)
  next
    assume "register s q = (s\<lparr>users_id_seq := Suc (users_id_seq s)\<rparr>, RegisterServerError)"
    with pk show ?thesis by (simp add: Register pk_ok_def)
  next
    fix em name
    assume fresh: "\<forall>u \<in> set (users s). u_id u \<noteq> Suc (users_id_seq s)"
      and eq: "register s q =
         (s\<lparr>users_id_seq := Suc (users_id_seq s),
            users := users s @
              [\<lparr>u_id = Suc (users_id_seq s), email = em, username = name, points = 1000,
                total_tournaments = 0, won_tournaments = 0, last_claim_date = None\<rparr>]\<rparr>,
          Registered (Suc (users_id_seq s)))"
    from fresh have "Suc (users_id_seq s) \<notin> u_id ` set (users s)" by auto
    with pk eq show ?thesis by (simp add: Register pk_ok_def)
  qed
next
  case (Enter tid uid pred)
  assume pk: "pk_ok s"
  show ?thesis
    by (rule enter_cases [of s tid uid pred])
       (use pk in \<open>simp_all add: Enter pk_ok_def debit_points_ids add_entry_ids\<close>)
next
  case (Resolve tid answer)
  assume pk: "pk_ok s"
  show ?thesis
    by (rule resolve_cases [of s tid answer])
       (use pk in \<open>simp_all add: Resolve pk_ok_def credited_ids mark_resolved_ids del: map_map\<close>)
next
  case (ClaimFree uid now db_now)
  assume pk: "pk_ok s"
  show ?thesis
    by (rule claim_cases [of s uid now db_now])
       (use pk in \<open>simp_all add: ClaimFree pk_ok_def credit_claim_ids\<close>)
next
  case (Sweep now)
  assume pk: "pk_ok s"
  then show ?thesis
    by (simp add: Sweep sweep_def pk_ok_def sweep_ids)
qed

lemma enter_select_Cons:
  assumes "enter_select s tid uid = (t, u) # rest"
  shows "t \<in> set (tournaments s) \<and> t_id t = tid \<and> status t = Active
         \<and> u \<in> set (users s) \<and> u_id u = uid"
proof -
  have "(t, u) \<in> set (enter_select s tid uid)"
    using assms by simp
  then show ?thesis
    by (simp add: enter_select_def)
qed

lemma select_winners_prize:
  assumes "w \<in> set (select_winners s tid answer)"
  shows "\<exists>t \<in> set (tournaments s). snd w = prize_pool t"
  using assms by (auto simp: select_winners_def)

lemma mark_resolved_prize:
  assumes "t' \<in> set (mark_resolved tid answer ts)"
  shows "\<exists>t \<in> set ts. prize_pool t' = prize_pool t \<and> entry_fee t' = entry_fee t"
proof -
  from assms obtain t where "t \<in> set ts"
    and "t' = (if t_id t = tid then t\<lparr>status := Resolved, correct_answer := Some answer\<rparr> else t)"
    unfolding mark_resolved_def set_map by blast
  then show ?thesis by (cases "t_id t = tid") auto
qed


lemma ball_map:
  "(\<And>x. x \<in> set xs \<Longrightarrow> P (f x)) \<Longrightarrow> \<forall>y \<in> set (map f xs). P y"
  by simp

lemma add_entry_valid:
  assumes "0 \<le> fee" and "\<forall>t \<in> set ts. 0 \<le> entry_fee t \<and> 0 \<le> prize_pool t"
  shows "\<forall>t \<in> set (add_entry fee tid ts). 0 \<le> entry_fee t \<and> 0 \<le> prize_pool t"
  unfolding add_entry_def by (rule ball_map) (use assms in simp)

lemma mark_resolved_valid:
  assumes "\<forall>t \<in> set ts. 0 \<le> entry_fee t \<and> 0 \<le> prize_pool t"
  shows "\<forall>t \<in> set (mark_resolved tid answer ts). 0 \<le> entry_fee t \<and> 0 \<le> prize_pool t"
  unfolding mark_resolved_def by (rule ball_map) (use assms in simp)

lemma sweep_valid:
  assumes "\<forall>t \<in> set ts. 0 \<le> entry_fee t \<and> 0 \<le> prize_pool t"
  shows "\<forall>t \<in> set (close_due now (start_due now ts)). 0 \<le> entry_fee t \<and> 0 \<le> prize_pool t"
  unfolding sweep_rows by (rule ball_map) (use assms in \<open>simp add: sweep_row_def Let_def\<close>)

lemma credited_valid:
  assumes "0 \<le> prize" and "\<forall>u \<in> set us. 0 \<le> points u"
  shows "\<forall>u \<in> set (map (credited prize ids) us). 0 \<le> points u"
  by (rule ball_map) (use assms in \<open>simp add: credited_def\<close>)

lemma credit_claim_valid:
  assumes "\<forall>u \<in> set us. 0 \<le> points u"
  shows "\<forall>u \<in> set (credit_claim db_now uid us). 0 \<le> points u"
  unfolding credit_claim_def by (rule ball_map) (use assms in \<open>simp add: pointsToAdd_def\<close>)

lemma debit_points_valid:
  assumes "distinct (map u_id us)" and "u \<in> set us" and "fee \<le> points u"
    and "\<forall>v \<in> set us. 0 \<le> points v"
  shows "\<forall>v \<in> set (debit_points fee (u_id u) us). 0 \<le> points v"
  unfolding debit_points_unique [OF assms(1,2)] by (rule ball_map) (use assms in simp)

lemma valid_state_step:
  assumes pk: "pk_ok s" and v: "valid_state s"
  shows "valid_state (step s x)"
proof (cases x)
  case (Register q)
  show ?thesis
  proof (rule register_cases [of s q])
    fix r assume "register s q = (s, r)"
    with v show ?thesis by (simp add: Register)
  next
    assume "register s q = (s\<lparr>users_id_seq := Suc (users_id_seq s)\<rparr>, RegisterServerError)"
    with v show ?thesis by (simp add: Register valid_state_def)
  next
    fix em name
    assume "register s q =
         (s\<lparr>users_id_seq := Suc (users_id_seq s),
            users := users s @
              [\<lparr>u_id = Suc (users_id_seq s), email = em, username = name, points = 1000,
                total_tournaments = 0, won_tournaments = 0, last_claim_date = None\<rparr>]\<rparr>,
          Registered (Suc (users_id_seq s)))"
    with v show ?thesis by (simp add: Register valid_state_def)
  qed
next
  case (Enter tid uid pred)
  show ?thesis
  proof (rule enter_cases [of s tid uid pred])
    fix code msg
    assume "enter s tid uid pred = (s, EnterFailed code msg)"
    with v show ?thesis by (simp add: Enter)
  next
    fix t u rest
    assume sel: "enter_select s tid uid = (t, u) # rest"
      and funds: "entry_fee t \<le> points u"
      and eq: "enter s tid uid pred =
         (s\<lparr>users := debit_points (entry_fee t) uid (users s),
            participants := participants s @
              [\<lparr>tournament_id = tid, user_id = uid, prediction = pred,
                points_paid = entry_fee t\<rparr>],
            tournaments := add_entry (entry_fee t) tid (tournaments s)\<rparr>, EnterOk)"
    from sel have t: "t \<in> set (tournaments s)" and u: "u \<in> set (users s)" and uid: "u_id u = uid"
      by (simp_all add: enter_select_Cons)
    from t v have fee: "0 \<le> entry_fee t" by (simp add: valid_state_def)
    have us: "\<forall>v \<in> set (debit_points (entry_fee t) uid (users s)). 0 \<le> points v"
      using pk u funds v debit_points_valid [of "users s" u "entry_fee t"]
      by (simp add: pk_ok_def valid_state_def uid)
    from fee v have ts: "\<forall>x \<in> set (add_entry (entry_fee t) tid (tournaments s)).
        0 \<le> entry_fee x \<and> 0 \<le> prize_pool x"
      by (intro add_entry_valid) (simp_all add: valid_state_def)
    from us ts show ?thesis
      by (simp add: Enter eq valid_state_def)
  qed
next
  case (Resolve tid answer)
  from v have ts: "\<forall>t \<in> set (mark_resolved tid answer (tournaments s)).
        0 \<le> entry_fee t \<and> 0 \<le> prize_pool t"
    by (intro mark_resolved_valid) (simp add: valid_state_def)
  show ?thesis
  proof (rule resolve_cases [of s tid answer])
    assume "resolve s tid answer =
             (s\<lparr>tournaments := mark_resolved tid answer (tournaments s)\<rparr>, ResolvedNoWinners)"
    with v ts show ?thesis by (simp add: Resolve valid_state_def)
  next
    fix w ws
    assume "resolve s tid answer = (s, ResolveFailed)"
    with v show ?thesis by (simp add: Resolve)
  next
    fix w ws
    assume sel: "select_winners (s\<lparr>tournaments := mark_resolved tid answer (tournaments s)\<rparr>) tid answer
         = w # ws"
      and eq: "resolve s tid answer =
       (s\<lparr>tournaments := mark_resolved tid answer (tournaments s),
          users := map (credited (snd w div int (length (w # ws))) (map fst (w # ws))) (users s)\<rparr>,
        ResolvedWinners (length (w # ws)) (snd w div int (length (w # ws))))"
    have "w \<in> set (select_winners (s\<lparr>tournaments := mark_resolved tid answer (tournaments s)\<rparr>) tid answer)"
      using sel by simp
    then have "\<exists>t \<in> set (tournaments (s\<lparr>tournaments := mark_resolved tid answer (tournaments s)\<rparr>)).
        snd w = prize_pool t"
      by (rule select_winners_prize)
    then obtain t where a: "t \<in> set (mark_resolved tid answer (tournaments s))"
      and b: "snd w = prize_pool t"
      by auto
    from ts a have "0 \<le> prize_pool t" by blast
    with b have "0 \<le> snd w" by simp
    then have "0 \<le> snd w div int (length (w # ws))"
      by (simp add: pos_imp_zdiv_nonneg_iff)
    moreover from v have "\<forall>u \<in> set (users s). 0 \<le> points u"
      by (simp add: valid_state_def)
    ultimately have "\<forall>u \<in> set (map (credited (snd w div int (length (w # ws)))
                                      (map fst (w # ws))) (users s)).
        0 \<le> points u"
      by (rule credited_valid)
    with ts show ?thesis
      unfolding Resolve step.simps eq valid_state_def by simp
  qed
next
  case (ClaimFree uid now db_now)
  from v have us: "\<forall>u \<in> set (credit_claim db_now uid (users s)). 0 \<le> points u"
    by (intro credit_claim_valid) (simp add: valid_state_def)
  show ?thesis
  proof (rule claim_cases [of s uid now db_now])
    fix r assume "claim_free_points s uid now db_now = (s, r)"
    with v show ?thesis by (simp add: ClaimFree)
  next
    assume "claim_free_points s uid now db_now =
       (s\<lparr>users := credit_claim db_now uid (users s)\<rparr>,
        Claimed pointsToAdd (now + cooldownHours * hour_ms))"
    with v us show ?thesis by (simp add: ClaimFree valid_state_def)
  qed
next
  case (Sweep now)
  from v have "\<forall>t \<in> set (close_due now (start_due now (tournaments s))).
      0 \<le> entry_fee t \<and> 0 \<le> prize_pool t"
    by (intro sweep_valid) (simp add: valid_state_def)
  with v show ?thesis
    by (simp add: Sweep sweep_def valid_state_def)
qed

lemma valid_state_run: "pk_ok s \<Longrightarrow> valid_state s \<Longrightarrow> valid_state (run s xs)"
  by (induction xs arbitrary: s) (simp_all add: pk_ok_step valid_state_step)

lemma demo_password: "passwordRegex ''Passw0rd!''"
  by (simp add: passwordRegex_def is_lower_def is_upper_def is_digit_def is_special_def)

lemma demo_register:
  "register demo_db demo_request =
     (demo_db\<lparr>users_id_seq := 2,
        users := [demo_user, \<lparr>u_id = 2, email = Some ''new@test.com'', username = ''Newcomer'',
                   points = 1000, total_tournaments = 0, won_tournaments = 0,
                   last_claim_date = None\<rparr>]\<rparr>, Registered 2)"
  by (simp add: register_def insert_user_def int4_def truthy_def demo_request_def demo_password
      demo_db_def demo_user_def)


lemma demo_run:
  "map points (users (run demo_db demo_ops)) = [1100, 1400]"
  by code_simp

lemma keeps_counters_id: "keeps_counters (\<lambda>t. t)"
  by (simp add: keeps_counters_def)

lemma keeps_counters_mark_resolved:
  "keeps_counters (\<lambda>t. if t_id t = tid then t\<lparr>status := Resolved, correct_answer := Some answer\<rparr> else t)"
  by (simp add: keeps_counters_def)

lemma keeps_counters_sweep_row: "keeps_counters (sweep_row now)"
  by (simp add: keeps_counters_def sweep_row_def Let_def)

lemma step_counters:
  obtains (kept) f where
      "keeps_counters f"
      "tournaments (step s x) = map f (tournaments s)"
      "participants (step s x) = participants s"
  | (entered) t tid uid pred where
      "t \<in> set (tournaments s)" "t_id t = tid"
      "current_participants t < max_participants t"
      "tournaments (step s x) = add_entry (entry_fee t) tid (tournaments s)"
      "participants (step s x) =
         participants s @ [\<lparr>tournament_id = tid, user_id = uid, prediction = pred,
                             points_paid = entry_fee t\<rparr>]"
proof (cases x)
  case (Register q)
  have "tournaments (step s x) = map (\<lambda>t. t) (tournaments s) \<and> participants (step s x) = participants s"
    by (rule register_cases [of s q]) (simp_all add: Register)
  then show ?thesis by (intro kept [OF keeps_counters_id]) simp_all
next
  case (Enter tid uid pred)
  show ?thesis
  proof (rule enter_cases [of s tid uid pred])
    fix code msg
    assume "enter s tid uid pred = (s, EnterFailed code msg)"
    then have "tournaments (step s x) = map (\<lambda>t. t) (tournaments s)
               \<and> participants (step s x) = participants s"
      by (simp add: Enter)
    then show ?thesis by (intro kept [OF keeps_counters_id]) simp_all
  next
    fix t u rest
    assume sel: "enter_select s tid uid = (t, u) # rest"
      and room: "current_participants t < max_participants t"
      and eq: "enter s tid uid pred =
         (s\<lparr>users := debit_points (entry_fee t) uid (users s),
            participants := participants s @
              [\<lparr>tournament_id = tid, user_id = uid, prediction = pred,
                points_paid = entry_fee t\<rparr>],
            tournaments := add_entry (entry_fee t) tid (tournaments s)\<rparr>, EnterOk)"
    from sel have "t \<in> set (tournaments s)" "t_id t = tid"
      by (simp_all add: enter_select_Cons)
    with room eq show ?thesis
      by (intro entered [of t tid uid pred]) (simp_all add: Enter)
  qed
next
  case (Resolve tid answer)
  have b: "participants (step s x) = participants s"
    by (simp add: Resolve resolve_participants)
  show ?thesis
  proof (cases "snd (resolve s tid answer) = ResolveFailed")
    case True
    then have "tournaments (step s x) = map (\<lambda>t. t) (tournaments s)"
      by (simp add: Resolve resolve_tournaments)
    then show ?thesis using b by (rule kept [OF keeps_counters_id])
  next
    case False
    then have a: "tournaments (step s x) =
          map (\<lambda>t. if t_id t = tid then t\<lparr>status := Resolved, correct_answer := Some answer\<rparr> else t)
              (tournaments s)"
      by (simp add: Resolve resolve_tournaments mark_resolved_def)
    show ?thesis
      by (rule kept [OF keeps_counters_mark_resolved a b])
  qed
next
  case (ClaimFree uid now db_now)
  have "tournaments (step s x) = map (\<lambda>t. t) (tournaments s) \<and> participants (step s x) = participants s"
    by (rule claim_cases [of s uid now db_now]) (simp_all add: ClaimFree)
  then show ?thesis by (intro kept [OF keeps_counters_id]) simp_all
next
  case (Sweep now)
  have a: "tournaments (step s x) = map (sweep_row now) (tournaments s)"
    and b: "participants (step s x) = participants s"
    by (simp_all add: Sweep sweep_def sweep_rows)
  show ?thesis
    by (rule kept [OF keeps_counters_sweep_row a b])
qed


lemma entries_of_same:
  "participants s' = participants s \<Longrightarrow> entries_of s' i = entries_of s i"
  by (simp add: entries_of_def)

lemma entries_of_added:
  assumes "participants s' = participants s @ [p]"
  shows "entries_of s' i = entries_of s i @ (if tournament_id p = i then [p] else [])"
  using assms by (simp add: entries_of_def)

lemma counters_kept:
  assumes k: "keeps_counters f"
    and ts: "tournaments s' = map f (tournaments s)"
    and ps: "participants s' = participants s"
    and inv: "counters_consistent s"
  shows "counters_consistent s'"
  unfolding counters_consistent_def ts
proof (rule ball_map)
  fix t assume t: "t \<in> set (tournaments s)"
  from k have f: "t_id (f t) = t_id t" "current_participants (f t) = current_participants t"
    "max_participants (f t) = max_participants t" "prize_pool (f t) = prize_pool t"
    by (simp_all add: keeps_counters_def)
  from inv t have "current_participants t = int (length (entries_of s (t_id t)))
        \<and> current_participants t \<le> max_participants t
        \<and> prize_pool t = sum_list (map points_paid (entries_of s (t_id t)))"
    unfolding counters_consistent_def by blast
  then show "current_participants (f t) = int (length (entries_of s' (t_id (f t))))
        \<and> current_participants (f t) \<le> max_participants (f t)
        \<and> prize_pool (f t) = sum_list (map points_paid (entries_of s' (t_id (f t))))"
    by (simp add: f entries_of_same [OF ps])
qed

lemma fees_kept:
  assumes k: "keeps_counters f"
    and ts: "tournaments s' = map f (tournaments s)"
    and ps: "participants s' = participants s"
    and inv: "fees_as_charged s"
  shows "fees_as_charged s'"
  unfolding fees_as_charged_def ts
proof (rule ball_map)
  fix t assume t: "t \<in> set (tournaments s)"
  from k have f: "t_id (f t) = t_id t" "entry_fee (f t) = entry_fee t"
    by (simp_all add: keeps_counters_def)
  from inv t have "\<forall>p \<in> set (entries_of s (t_id t)). points_paid p = entry_fee t"
    by (simp add: fees_as_charged_def)
  then show "\<forall>p \<in> set (entries_of s' (t_id (f t))). points_paid p = entry_fee (f t)"
    by (simp add: f entries_of_same [OF ps])
qed

lemma counters_entered:
  assumes pk: "distinct (map t_id (tournaments s))"
    and t: "t \<in> set (tournaments s)"
    and room: "current_participants t < max_participants t"
    and ts: "tournaments s' = add_entry (entry_fee t) (t_id t) (tournaments s)"
    and ps: "participants s' =
         participants s @ [\<lparr>tournament_id = t_id t, user_id = uid, prediction = pred,
                             points_paid = entry_fee t\<rparr>]"
    and inv: "counters_consistent s"
  shows "counters_consistent s'"
  unfolding counters_consistent_def ts add_entry_unique [OF pk t]
proof (rule ball_map)
  fix x assume x: "x \<in> set (tournaments s)"
  from inv x have ix: "current_participants x = int (length (entries_of s (t_id x)))
        \<and> current_participants x \<le> max_participants x
        \<and> prize_pool x = sum_list (map points_paid (entries_of s (t_id x)))"
    unfolding counters_consistent_def by blast
  let ?x' = "if x = t
             then t\<lparr>current_participants := current_participants t + 1,
                    prize_pool := prize_pool t + entry_fee t\<rparr>
             else x"
  show "current_participants ?x' = int (length (entries_of s' (t_id ?x')))
        \<and> current_participants ?x' \<le> max_participants ?x'
        \<and> prize_pool ?x' = sum_list (map points_paid (entries_of s' (t_id ?x')))"
  proof (cases "x = t")
    case True
    with ix room show ?thesis
      by (simp add: entries_of_added [OF ps])
  next
    case False
    with pk t x have "t_id x \<noteq> t_id t"
      using key_eq_iff [of t_id "tournaments s" t x] by simp
    with False ix show ?thesis
      by (simp add: entries_of_added [OF ps])
  qed
qed

lemma fees_entered:
  assumes pk: "distinct (map t_id (tournaments s))"
    and t: "t \<in> set (tournaments s)"
    and ts: "tournaments s' = add_entry (entry_fee t) (t_id t) (tournaments s)"
    and ps: "participants s' =
         participants s @ [\<lparr>tournament_id = t_id t, user_id = uid, prediction = pred,
                             points_paid = entry_fee t\<rparr>]"
    and inv: "fees_as_charged s"
  shows "fees_as_charged s'"
  unfolding fees_as_charged_def ts add_entry_unique [OF pk t]
proof (rule ball_map)
  fix x assume x: "x \<in> set (tournaments s)"
  from inv x have ix: "\<forall>p \<in> set (entries_of s (t_id x)). points_paid p = entry_fee x"
    by (simp add: fees_as_charged_def)
  let ?x' = "if x = t
             then t\<lparr>current_participants := current_participants t + 1,
                    prize_pool := prize_pool t + entry_fee t\<rparr>
             else x"
  show "\<forall>p \<in> set (entries_of s' (t_id ?x')). points_paid p = entry_fee ?x'"
  proof (cases "x = t")
    case True
    with ix show ?thesis
      by (simp add: entries_of_added [OF ps])
  next
    case False
    with pk t x have "t_id x \<noteq> t_id t"
      using key_eq_iff [of t_id "tournaments s" t x] by simp
    with False ix show ?thesis
      by (simp add: entries_of_added [OF ps])
  qed
qed

lemma counters_step:
  assumes "pk_ok s" and "counters_consistent s"
  shows "counters_consistent (step s x)"
proof (rule step_counters [of s x])
  fix f
  assume "keeps_counters f" "tournaments (step s x) = map f (tournaments s)"
    "participants (step s x) = participants s"
  then show ?thesis using assms(2) by (rule counters_kept)
next
  fix t tid uid pred
  assume "t \<in> set (tournaments s)" "t_id t = tid"
    "current_participants t < max_participants t"
    "tournaments (step s x) = add_entry (entry_fee t) tid (tournaments s)"
    "participants (step s x) =
         participants s @ [\<lparr>tournament_id = tid, user_id = uid, prediction = pred,
                             points_paid = entry_fee t\<rparr>]"
  with assms show ?thesis
    by (intro counters_entered [of s t "step s x" uid pred]) (simp_all add: pk_ok_def)
qed

lemma fees_step:
  assumes "pk_ok s" and "fees_as_charged s"
  shows "fees_as_charged (step s x)"
proof (rule step_counters [of s x])
  fix f
  assume "keeps_counters f" "tournaments (step s x) = map f (tournaments s)"
    "participants (step s x) = participants s"
  then show ?thesis using assms(2) by (rule fees_kept)
next
  fix t tid uid pred
  assume "t \<in> set (tournaments s)" "t_id t = tid"
    "current_participants t < max_participants t"
    "tournaments (step s x) = add_entry (entry_fee t) tid (tournaments s)"
    "participants (step s x) =
         participants s @ [\<lparr>tournament_id = tid, user_id = uid, prediction = pred,
                             points_paid = entry_fee t\<rparr>]"
  with assms show ?thesis
    by (intro fees_entered [of s t "step s x" uid pred]) (simp_all add: pk_ok_def)
qed

lemma counters_run:
  "pk_ok s \<Longrightarrow> counters_consistent s \<Longrightarrow> counters_consistent (run s xs)"
  by (induction xs arbitrary: s) (simp_all add: pk_ok_step counters_step)

lemma fees_run:
  "pk_ok s \<Longrightarrow> fees_as_charged s \<Longrightarrow> fees_as_charged (run s xs)"
  by (induction xs arbitrary: s) (simp_all add: pk_ok_step fees_step)

lemma sum_uniform:
  "\<forall>p \<in> set es. points_paid p = F \<Longrightarrow> sum_list (map points_paid es) = int (length es) * F"
  by (induction es) (simp_all add: algebra_simps)

section \<open>Range and independence lemmas\<close>

lemma debit_refused_unique:
  assumes "distinct (map u_id us)" and "u \<in> set us"
  shows "debit_refused fee (u_id u) us \<longleftrightarrow> \<not> int4 (points u - fee)"
  unfolding debit_refused_def list_ex_iff
  using assms key_eq_iff [of u_id us u] by blast

lemma add_entry_refused_unique:
  assumes "distinct (map t_id ts)" and "t \<in> set ts"
  shows "add_entry_refused fee (t_id t) ts \<longleftrightarrow>
         \<not> (int4 (current_participants t + 1) \<and> int4 (prize_pool t + fee))"
  unfolding add_entry_refused_def list_ex_iff
  using assms key_eq_iff [of t_id ts t] by blast

lemma credit_claim_refused_unique:
  assumes "distinct (map u_id us)" and "u \<in> set us"
  shows "credit_claim_refused (u_id u) us \<longleftrightarrow> \<not> int4 (points u + 500)"
  unfolding credit_claim_refused_def list_ex_iff pointsToAdd_def
  using assms key_eq_iff [of u_id us u] by blast

lemma count_list_map:
  "count_list (map f xs) y = length (filter (\<lambda>x. f x = y) xs)"
  by (induction xs) simp_all

lemma enter_tx_prediction:
  "(case enter_tx s tid uid pred of Inl e \<Rightarrow> Some e | Inr _ \<Rightarrow> None) =
   (case enter_tx s tid uid pred' of Inl e \<Rightarrow> Some e | Inr _ \<Rightarrow> None)"
proof (cases "enter_select s tid uid")
  case Nil
  then show ?thesis by (simp add: enter_tx_def)
next
  case (Cons r rest)
  obtain t u where "r = (t, u)" by (cases r)
  with Cons show ?thesis by (simp add: enter_tx_def)
qed

lemma enter_prediction: "snd (enter s tid uid pred) = snd (enter s tid uid pred')"
  using enter_tx_prediction [of s tid uid pred pred']
  by (simp add: enter_def split: sum.splits)

lemma winners_of_rows:
  "map (\<lambda>t. (uid, prize_pool t)) (filter (\<lambda>t. t_id t = i) ts) =
   map (\<lambda>r. (uid, snd r)) (filter (\<lambda>r. fst r = i) (map (\<lambda>t. (t_id t, prize_pool t)) ts))"
  by (induction ts) simp_all

lemma select_winners_rows:
  assumes "map (\<lambda>t. (t_id t, prize_pool t)) (tournaments s') =
           map (\<lambda>t. (t_id t, prize_pool t)) (tournaments s)"
    and "participants s' = participants s"
  shows "select_winners s' tid answer = select_winners s tid answer"
  unfolding select_winners_def winners_of_rows assms ..

lemma mark_resolved_rows:
  "map (\<lambda>t. (t_id t, prize_pool t)) (mark_resolved tid answer ts) =
   map (\<lambda>t. (t_id t, prize_pool t)) ts"
  by (induction ts) (simp_all add: mark_resolved_def)

lemma resolve_status_irrelevant:
  "snd (resolve (s\<lparr>tournaments := map (\<lambda>t. t\<lparr>status := f t\<rparr>) (tournaments s)\<rparr>) tid answer) =
   snd (resolve s tid answer)"
proof -
  let ?s' = "s\<lparr>tournaments := map (\<lambda>t. t\<lparr>status := f t\<rparr>) (tournaments s)\<rparr>"
  have rows: "map (\<lambda>t. (t_id t, prize_pool t)) (map (\<lambda>t. t\<lparr>status := f t\<rparr>) (tournaments s)) =
              map (\<lambda>t. (t_id t, prize_pool t)) (tournaments s)"
    by simp
  have sel: "select_winners (?s'\<lparr>tournaments := mark_resolved tid answer (tournaments ?s')\<rparr>) tid answer =
        select_winners (s\<lparr>tournaments := mark_resolved tid answer (tournaments s)\<rparr>) tid answer"
    by (rule select_winners_rows) (simp_all add: mark_resolved_rows)
  show ?thesis
    unfolding resolve_def Let_def sel
    by (simp split: list.split option.split)
qed

section \<open>Entry\<close>

text \<open>
  C1, as the specification states it, has the call succeed for every user and tournament
  that satisfy the four preconditions. The demo user and the demo tournament with its
  prize pool at 2147483647 satisfy them, and the call fails: the second \<^verbatim>\<open>UPDATE\<close> would
  take the pool out of the \<^verbatim>\<open>INTEGER\<close> range, Postgres refuses it, the handler rolls back
  and answers 400 \<^verbatim>\<open>integer out of range\<close>.
\<close>

theorem enter_out_of_range_counterexample:
  "pk_ok brimful_db
   \<and> tournaments brimful_db = [brimful_tournament] \<and> users brimful_db = [demo_user]
   \<and> participants brimful_db = []
   \<and> status brimful_tournament = Active
   \<and> entry_fee brimful_tournament \<le> points demo_user
   \<and> current_participants brimful_tournament < max_participants brimful_tournament
   \<and> enter brimful_db 1 1 ''Above $45,000'' =
       (brimful_db, EnterFailed 400 ''integer out of range'')"
  by (simp add: pk_ok_def enter_def enter_tx_def enter_select_def existing_participation_def
      debit_refused_def add_entry_refused_def int4_def brimful_db_def brimful_tournament_def
      demo_db_def demo_user_def demo_tournament_def)

text \<open>
  C1, amended. When the tournament \<open>t\<close> is in the table with status active, the user \<open>u\<close>
  has at least \<open>entry_fee t\<close> points, \<open>t\<close> has fewer participants than \<open>max_participants t\<close>
  and there is no participant row for the pair, then: if the three values the call
  computes (\<open>points u - entry_fee t\<close>, \<open>current_participants t + 1\<close>,
  \<open>prize_pool t + entry_fee t\<close>) are in the \<^verbatim>\<open>INTEGER\<close> range, the handler answers with
  success and commits one database in which exactly the row of \<open>u\<close> is debited by
  \<open>entry_fee t\<close>, one participant row with the prediction and \<open>points_paid = entry_fee t\<close>
  is appended, and exactly the row of \<open>t\<close> has \<open>current_participants\<close> raised by one and
  \<open>prize_pool\<close> raised by \<open>entry_fee t\<close>; if one of them is not, the handler answers 400
  \<^verbatim>\<open>integer out of range\<close> and the database is as it was.
\<close>

theorem enter_success:
  assumes "pk_ok s"
    and "t \<in> set (tournaments s)" and "status t = Active"
    and "u \<in> set (users s)"
    and "entry_fee t \<le> points u"
    and "current_participants t < max_participants t"
    and "\<forall>p \<in> set (participants s). \<not> (tournament_id p = t_id t \<and> user_id p = u_id u)"
  shows "(int4 (points u - entry_fee t) \<and> int4 (current_participants t + 1)
          \<and> int4 (prize_pool t + entry_fee t) \<longrightarrow>
          enter s (t_id t) (u_id u) pred =
           (s\<lparr>users := map (\<lambda>v. if v = u then u\<lparr>points := points u - entry_fee t\<rparr> else v) (users s),
              participants := participants s @
                [\<lparr>tournament_id = t_id t, user_id = u_id u, prediction = pred,
                  points_paid = entry_fee t\<rparr>],
              tournaments := map (\<lambda>x. if x = t
                                       then t\<lparr>current_participants := current_participants t + 1,
                                              prize_pool := prize_pool t + entry_fee t\<rparr>
                                       else x) (tournaments s)\<rparr>,
            EnterOk))
         \<and> (\<not> (int4 (points u - entry_fee t) \<and> int4 (current_participants t + 1)
                \<and> int4 (prize_pool t + entry_fee t)) \<longrightarrow>
            enter s (t_id t) (u_id u) pred = (s, EnterFailed 400 ''integer out of range''))"
proof -
  have sel: "enter_select s (t_id t) (u_id u) = [(t, u)]"
    using assms by (simp add: enter_select_unique)
  have ex: "existing_participation s (t_id t) (u_id u) = []"
    using assms(7) by (simp add: existing_participation_def filter_empty_conv)
  have us: "debit_points (entry_fee t) (u_id u) (users s) =
            map (\<lambda>v. if v = u then u\<lparr>points := points u - entry_fee t\<rparr> else v) (users s)"
    using assms by (simp add: pk_ok_def debit_points_unique)
  have ts: "add_entry (entry_fee t) (t_id t) (tournaments s) =
            map (\<lambda>x. if x = t
                      then t\<lparr>current_participants := current_participants t + 1,
                             prize_pool := prize_pool t + entry_fee t\<rparr>
                      else x) (tournaments s)"
    using assms by (simp add: pk_ok_def add_entry_unique)
  have r1: "debit_refused (entry_fee t) (u_id u) (users s) \<longleftrightarrow> \<not> int4 (points u - entry_fee t)"
    using assms by (simp add: pk_ok_def debit_refused_unique)
  have r2: "add_entry_refused (entry_fee t) (t_id t) (tournaments s) \<longleftrightarrow>
            \<not> (int4 (current_participants t + 1) \<and> int4 (prize_pool t + entry_fee t))"
    using assms by (simp add: pk_ok_def add_entry_refused_unique)
  show ?thesis
  proof (cases "int4 (points u - entry_fee t) \<and> int4 (current_participants t + 1)
                \<and> int4 (prize_pool t + entry_fee t)")
    case True
    with assms(5,6) show ?thesis
      by (simp add: enter_def enter_tx_def sel ex us ts r1 r2)
  next
    case False
    with assms(5,6) have "enter s (t_id t) (u_id u) pred =
        (s, EnterFailed 400 ''integer out of range'')"
      by (auto simp: enter_def enter_tx_def sel ex r1 r2)
    with False show ?thesis by simp
  qed
qed

theorem enter_success_witness:
  "pk_ok demo_db \<and> demo_tournament \<in> set (tournaments demo_db)
   \<and> status demo_tournament = Active \<and> demo_user \<in> set (users demo_db)
   \<and> entry_fee demo_tournament = 100 \<and> points demo_user = 1000
   \<and> int4 (points demo_user - entry_fee demo_tournament)
   \<and> int4 (current_participants demo_tournament + 1)
   \<and> int4 (prize_pool demo_tournament + entry_fee demo_tournament)
   \<and> snd (enter demo_db 1 1 ''Above $45,000'') = EnterOk
   \<and> map points (users (fst (enter demo_db 1 1 ''Above $45,000''))) = [900]
   \<and> map prize_pool (tournaments (fst (enter demo_db 1 1 ''Above $45,000''))) = [100]
   \<and> map current_participants (tournaments (fst (enter demo_db 1 1 ''Above $45,000''))) = [1]
   \<and> participants (fst (enter demo_db 1 1 ''Above $45,000'')) =
       [\<lparr>tournament_id = 1, user_id = 1, prediction = ''Above $45,000'', points_paid = 100\<rparr>]
   \<and> \<not> int4 (prize_pool brimful_tournament + entry_fee brimful_tournament)
   \<and> enter brimful_db 1 1 ''Below $45,000'' =
       (brimful_db, EnterFailed 400 ''integer out of range'')"
proof -
  have a: "snd (enter demo_db 1 1 ''Above $45,000'') = EnterOk
   \<and> map points (users (fst (enter demo_db 1 1 ''Above $45,000''))) = [900]
   \<and> map prize_pool (tournaments (fst (enter demo_db 1 1 ''Above $45,000''))) = [100]
   \<and> map current_participants (tournaments (fst (enter demo_db 1 1 ''Above $45,000''))) = [1]
   \<and> participants (fst (enter demo_db 1 1 ''Above $45,000'')) =
       [\<lparr>tournament_id = 1, user_id = 1, prediction = ''Above $45,000'', points_paid = 100\<rparr>]"
    using enter_success [of demo_db demo_tournament demo_user "''Above $45,000''"]
    by (simp add: pk_ok_def int4_def demo_db_def demo_user_def demo_tournament_def)
  have b: "enter brimful_db 1 1 ''Below $45,000'' =
       (brimful_db, EnterFailed 400 ''integer out of range'')"
    using enter_success [of brimful_db brimful_tournament demo_user "''Below $45,000''"]
    by (simp add: pk_ok_def int4_def brimful_db_def brimful_tournament_def demo_db_def
        demo_user_def demo_tournament_def)
  have c: "pk_ok demo_db \<and> demo_tournament \<in> set (tournaments demo_db)
   \<and> status demo_tournament = Active \<and> demo_user \<in> set (users demo_db)
   \<and> entry_fee demo_tournament = 100 \<and> points demo_user = 1000
   \<and> int4 (points demo_user - entry_fee demo_tournament)
   \<and> int4 (current_participants demo_tournament + 1)
   \<and> int4 (prize_pool demo_tournament + entry_fee demo_tournament)
   \<and> \<not> int4 (prize_pool brimful_tournament + entry_fee brimful_tournament)"
    by (simp add: pk_ok_def int4_def brimful_tournament_def demo_db_def demo_user_def
        demo_tournament_def)
  from a b c show ?thesis by blast
qed

text \<open>
  C2, as the specification states it, gives a missing tournament and a tournament that is
  not active two distinct error kinds. The handler has one \<^verbatim>\<open>throw\<close> for both: the same
  status code and the same message come back when the tournament is missing and when it
  is pending.
\<close>

theorem enter_not_found_not_active_counterexample:
  "enter no_tournament_db 1 1 ''Above $45,000'' =
     (no_tournament_db, EnterFailed 404 ''Tournament not found or not active'')
   \<and> enter pending_db 1 1 ''Above $45,000'' =
     (pending_db, EnterFailed 404 ''Tournament not found or not active'')"
  by (simp add: enter_def enter_tx_def enter_select_def no_tournament_db_def pending_db_def
      demo_db_def demo_user_def demo_tournament_def)

text \<open>
  C2, amended. A call that violates a precondition fails with the answer of the first
  failing check, in the order of the handler, and leaves the database as it was:
  404 \<^verbatim>\<open>Tournament not found or not active\<close> when no active tournament row has the id or
  no user row has the user id; otherwise 400 \<^verbatim>\<open>Insufficient points\<close> when the user has
  fewer points than the fee; otherwise 400 \<^verbatim>\<open>Tournament full\<close> when the tournament has
  reached \<open>max_participants\<close>; otherwise 400 \<^verbatim>\<open>Already participated\<close> when a participant
  row for the pair exists.
\<close>

theorem enter_failure:
  "((\<forall>t \<in> set (tournaments s). \<not> (t_id t = tid \<and> status t = Active))
      \<or> (\<forall>u \<in> set (users s). u_id u \<noteq> uid)
     \<longrightarrow> enter s tid uid pred = (s, EnterFailed 404 ''Tournament not found or not active''))
   \<and> (pk_ok s \<and> t \<in> set (tournaments s) \<and> status t = Active \<and> u \<in> set (users s) \<longrightarrow>
        (points u < entry_fee t
           \<longrightarrow> enter s (t_id t) (u_id u) pred = (s, EnterFailed 400 ''Insufficient points''))
      \<and> (entry_fee t \<le> points u \<and> max_participants t \<le> current_participants t
           \<longrightarrow> enter s (t_id t) (u_id u) pred = (s, EnterFailed 400 ''Tournament full''))
      \<and> (entry_fee t \<le> points u \<and> current_participants t < max_participants t
          \<and> (\<exists>p \<in> set (participants s). tournament_id p = t_id t \<and> user_id p = u_id u)
           \<longrightarrow> enter s (t_id t) (u_id u) pred = (s, EnterFailed 400 ''Already participated'')))"
proof (intro conjI impI)
  assume "(\<forall>t \<in> set (tournaments s). \<not> (t_id t = tid \<and> status t = Active))
          \<or> (\<forall>u \<in> set (users s). u_id u \<noteq> uid)"
  then have "filter (\<lambda>t. t_id t = tid \<and> status t = Active) (tournaments s) = []
             \<or> filter (\<lambda>u. u_id u = uid) (users s) = []"
    by (simp add: filter_empty_conv)
  then have "enter_select s tid uid = []"
    by (auto simp: enter_select_def product_Nil_right)
  then show "enter s tid uid pred = (s, EnterFailed 404 ''Tournament not found or not active'')"
    by (simp add: enter_def enter_tx_def)
next
  assume a: "pk_ok s \<and> t \<in> set (tournaments s) \<and> status t = Active \<and> u \<in> set (users s)"
    and "points u < entry_fee t"
  then show "enter s (t_id t) (u_id u) pred = (s, EnterFailed 400 ''Insufficient points'')"
    by (simp add: enter_def enter_tx_def enter_select_unique)
next
  assume a: "pk_ok s \<and> t \<in> set (tournaments s) \<and> status t = Active \<and> u \<in> set (users s)"
    and "entry_fee t \<le> points u \<and> max_participants t \<le> current_participants t"
  then show "enter s (t_id t) (u_id u) pred = (s, EnterFailed 400 ''Tournament full'')"
    by (simp add: enter_def enter_tx_def enter_select_unique)
next
  assume a: "pk_ok s \<and> t \<in> set (tournaments s) \<and> status t = Active \<and> u \<in> set (users s)"
    and b: "entry_fee t \<le> points u \<and> current_participants t < max_participants t
          \<and> (\<exists>p \<in> set (participants s). tournament_id p = t_id t \<and> user_id p = u_id u)"
  then have "existing_participation s (t_id t) (u_id u) \<noteq> []"
    by (auto simp: existing_participation_def filter_empty_conv)
  with a b show "enter s (t_id t) (u_id u) pred = (s, EnterFailed 400 ''Already participated'')"
    by (simp add: enter_def enter_tx_def enter_select_unique)
qed

theorem enter_failure_witness:
  "map status (tournaments pending_db) = [Pending]
   \<and> enter pending_db 1 1 ''Above $45,000'' =
       (pending_db, EnterFailed 404 ''Tournament not found or not active'')
   \<and> points poor_user < entry_fee demo_tournament
   \<and> enter poor_db 1 1 ''Above $45,000'' = (poor_db, EnterFailed 400 ''Insufficient points'')
   \<and> max_participants full_tournament \<le> current_participants full_tournament
   \<and> enter full_db 1 1 ''Above $45,000'' = (full_db, EnterFailed 400 ''Tournament full'')
   \<and> (\<exists>p \<in> set (participants entered_db). tournament_id p = 1 \<and> user_id p = 1)
   \<and> enter entered_db 1 1 ''Below $45,000'' =
       (entered_db, EnterFailed 400 ''Already participated'')"
proof -
  have entered: "entered_db =
      \<lparr>users = [demo_user\<lparr>points := 900\<rparr>],
       tournaments = [demo_tournament\<lparr>current_participants := 1, prize_pool := 100\<rparr>],
       participants = [\<lparr>tournament_id = 1, user_id = 1, prediction = ''Above $45,000'',
                        points_paid = 100\<rparr>],
       users_id_seq = 1\<rparr>"
    by (simp add: entered_db_def enter_def enter_tx_def enter_select_def
        existing_participation_def debit_points_def add_entry_def
        debit_refused_def add_entry_refused_def int4_def
        demo_db_def demo_user_def demo_tournament_def)
  have 1: "map status (tournaments pending_db) = [Pending]
     \<and> enter pending_db 1 1 ''Above $45,000'' =
         (pending_db, EnterFailed 404 ''Tournament not found or not active'')"
    using enter_failure [of pending_db 1 1 "''Above $45,000''"]
    by (simp add: pending_db_def demo_db_def demo_tournament_def)
  have 2: "points poor_user < entry_fee demo_tournament
     \<and> enter poor_db 1 1 ''Above $45,000'' = (poor_db, EnterFailed 400 ''Insufficient points'')"
    using enter_failure [of poor_db _ _ "''Above $45,000''" demo_tournament poor_user]
    by (simp add: pk_ok_def poor_db_def poor_user_def demo_db_def demo_user_def
        demo_tournament_def)
  have 3: "max_participants full_tournament \<le> current_participants full_tournament
     \<and> enter full_db 1 1 ''Above $45,000'' = (full_db, EnterFailed 400 ''Tournament full'')"
    using enter_failure [of full_db _ _ "''Above $45,000''" full_tournament demo_user]
    by (simp add: pk_ok_def full_db_def full_tournament_def demo_db_def demo_user_def
        demo_tournament_def)
  have 4: "(\<exists>p \<in> set (participants entered_db). tournament_id p = 1 \<and> user_id p = 1)
     \<and> enter entered_db 1 1 ''Below $45,000'' =
         (entered_db, EnterFailed 400 ''Already participated'')"
    using enter_failure [of entered_db _ _ "''Below $45,000''"
        "demo_tournament\<lparr>current_participants := 1, prize_pool := 100\<rparr>"
        "demo_user\<lparr>points := 900\<rparr>"]
    by (simp add: pk_ok_def entered demo_user_def demo_tournament_def)
  from 1 2 3 4 show ?thesis by blast
qed

text \<open>
  C9, as the specification states it, has the call succeed for every prediction whenever
  the four preconditions hold. With the prize pool at 2147483647 they hold and the call
  fails, for a label that is no option as for any other string.
\<close>

theorem enter_any_prediction_counterexample:
  "''Sideways'' \<notin> set (options brimful_tournament)
   \<and> pk_ok brimful_db
   \<and> tournaments brimful_db = [brimful_tournament] \<and> users brimful_db = [demo_user]
   \<and> participants brimful_db = []
   \<and> status brimful_tournament = Active
   \<and> entry_fee brimful_tournament \<le> points demo_user
   \<and> current_participants brimful_tournament < max_participants brimful_tournament
   \<and> snd (enter brimful_db 1 1 ''Sideways'') \<noteq> EnterOk
   \<and> participants (fst (enter brimful_db 1 1 ''Sideways'')) = []"
  by (simp add: pk_ok_def enter_def enter_tx_def enter_select_def existing_participation_def
      debit_refused_def add_entry_refused_def int4_def brimful_db_def brimful_tournament_def
      demo_db_def demo_user_def demo_tournament_def)

text \<open>
  C9, amended. The handler never looks at \<open>options t\<close>, and its answer never depends on the
  prediction: two calls that differ only in the prediction get the same answer. Under the
  four preconditions, when the three values the call computes are in the \<^verbatim>\<open>INTEGER\<close>
  range, the call succeeds for every string \<open>pred\<close>, whether or not it is one of the
  tournament's option labels, and the new participant row records that string as it came.
\<close>

theorem enter_any_prediction:
  assumes "pk_ok s"
    and "t \<in> set (tournaments s)" and "status t = Active"
    and "u \<in> set (users s)"
    and "entry_fee t \<le> points u"
    and "current_participants t < max_participants t"
    and "\<forall>p \<in> set (participants s). \<not> (tournament_id p = t_id t \<and> user_id p = u_id u)"
    and "int4 (points u - entry_fee t)" and "int4 (current_participants t + 1)"
    and "int4 (prize_pool t + entry_fee t)"
  shows "snd (enter s (t_id t) (u_id u) pred) = EnterOk
         \<and> participants (fst (enter s (t_id t) (u_id u) pred)) =
             participants s @ [\<lparr>tournament_id = t_id t, user_id = u_id u, prediction = pred,
                                points_paid = entry_fee t\<rparr>]
         \<and> snd (enter s' tid uid pred) = snd (enter s' tid uid pred')"
proof -
  have sel: "enter_select s (t_id t) (u_id u) = [(t, u)]"
    using assms by (simp add: enter_select_unique)
  have ex: "existing_participation s (t_id t) (u_id u) = []"
    using assms(7) by (simp add: existing_participation_def filter_empty_conv)
  have r1: "\<not> debit_refused (entry_fee t) (u_id u) (users s)"
    using assms by (simp add: pk_ok_def debit_refused_unique)
  have r2: "\<not> add_entry_refused (entry_fee t) (t_id t) (tournaments s)"
    using assms by (simp add: pk_ok_def add_entry_refused_unique)
  have "snd (enter s (t_id t) (u_id u) pred) = EnterOk
         \<and> participants (fst (enter s (t_id t) (u_id u) pred)) =
             participants s @ [\<lparr>tournament_id = t_id t, user_id = u_id u, prediction = pred,
                                points_paid = entry_fee t\<rparr>]"
    using assms(5,6) by (simp add: enter_def enter_tx_def sel ex r1 r2)
  moreover have "snd (enter s' tid uid pred) = snd (enter s' tid uid pred')"
    by (rule enter_prediction)
  ultimately show ?thesis by simp
qed

theorem enter_any_prediction_witness:
  "''Sideways'' \<notin> set (options demo_tournament)
   \<and> snd (enter demo_db 1 1 ''Sideways'') = EnterOk
   \<and> map prediction (participants (fst (enter demo_db 1 1 ''Sideways''))) = [''Sideways'']
   \<and> [] \<notin> set (options demo_tournament)
   \<and> snd (enter demo_db 1 1 []) = EnterOk
   \<and> map prediction (participants (fst (enter demo_db 1 1 []))) = [[]]
   \<and> snd (enter brimful_db 1 1 ''Sideways'') = snd (enter brimful_db 1 1 ''Above $45,000'')"
proof -
  have pre: "pk_ok demo_db" "demo_tournament \<in> set (tournaments demo_db)"
      "status demo_tournament = Active" "demo_user \<in> set (users demo_db)"
      "entry_fee demo_tournament \<le> points demo_user"
      "current_participants demo_tournament < max_participants demo_tournament"
      "\<forall>p \<in> set (participants demo_db).
            \<not> (tournament_id p = t_id demo_tournament \<and> user_id p = u_id demo_user)"
      "int4 (points demo_user - entry_fee demo_tournament)"
      "int4 (current_participants demo_tournament + 1)"
      "int4 (prize_pool demo_tournament + entry_fee demo_tournament)"
    by (simp_all add: pk_ok_def int4_def demo_db_def demo_user_def demo_tournament_def)
  have eqs: "t_id demo_tournament = 1" "u_id demo_user = 1" "participants demo_db = []"
    by (simp_all add: demo_db_def demo_user_def demo_tournament_def)
  have opts: "''Sideways'' \<notin> set (options demo_tournament)"
      "[] \<notin> set (options demo_tournament)"
    by (simp_all add: demo_tournament_def)
  have a: "snd (enter demo_db 1 1 ''Sideways'') = EnterOk
      \<and> map prediction (participants (fst (enter demo_db 1 1 ''Sideways''))) = [''Sideways'']
      \<and> snd (enter brimful_db 1 1 ''Sideways'') = snd (enter brimful_db 1 1 ''Above $45,000'')"
    using enter_any_prediction [OF pre, of "''Sideways''" brimful_db 1 1 "''Above $45,000''"]
    unfolding eqs by simp
  have b: "snd (enter demo_db 1 1 []) = EnterOk
      \<and> map prediction (participants (fst (enter demo_db 1 1 []))) = [[]]"
    using enter_any_prediction [OF pre, of "[]" brimful_db 1 1 "''Above $45,000''"]
    unfolding eqs by simp
  from a b opts show ?thesis by blast
qed

section \<open>Settlement\<close>

text \<open>
  C3, as the specification states it, has every call set the status to resolved, record
  the answer and credit each winner. In the settled tournament with its first winner at
  2147483647 points the three rows that predicted \<^verbatim>\<open>Yes\<close> win 33 points each; the first
  credit leaves the \<^verbatim>\<open>INTEGER\<close> range, the handler rolls back and answers 500
  \<^verbatim>\<open>Failed to resolve tournament\<close>: the tournament stays closed, no answer is recorded and
  nobody is credited.
\<close>

theorem resolve_out_of_range_counterexample:
  "filter (\<lambda>p. tournament_id p = 1 \<and> prediction p = ''Yes'') (participants rich_settle_db) =
     [settle_entry 1 ''Yes'', settle_entry 2 ''Yes'', settle_entry 3 ''Yes'']
   \<and> resolve rich_settle_db 1 ''Yes'' = (rich_settle_db, ResolveFailed)
   \<and> map status (tournaments (fst (resolve rich_settle_db 1 ''Yes''))) = [Closed]
   \<and> map correct_answer (tournaments (fst (resolve rich_settle_db 1 ''Yes''))) = [None]
   \<and> map points (users (fst (resolve rich_settle_db 1 ''Yes''))) = [2147483647, 900, 900, 900]
   \<and> map won_tournaments (users (fst (resolve rich_settle_db 1 ''Yes''))) = [0, 0, 0, 0]"
proof -
  have r: "resolve rich_settle_db 1 ''Yes'' = (rich_settle_db, ResolveFailed)"
    by (simp add: resolve_def select_winners_def mark_resolved_def credit_winner_refused_def
        int4_def rich_settle_db_def settle_db_def settle_tournament_def settle_user_def
        settle_entry_def)
  show ?thesis
    unfolding r
    by (simp add: rich_settle_db_def settle_db_def settle_tournament_def settle_user_def
        settle_entry_def)
qed

text \<open>
  C3, amended. Let \<open>W\<close> be the participant rows of the tournament \<open>t\<close> whose prediction is
  \<open>answer\<close> and \<open>prizePerWinner = prize_pool t div length W\<close>. No call changes a participant
  row. When \<open>W\<close> is empty the call sets the status of \<open>t\<close> to resolved, records the answer and
  changes no user row. When \<open>W\<close> is not empty and every credit stays in the \<^verbatim>\<open>INTEGER\<close>
  range (\<open>credits_in_range\<close>), it sets the status of \<open>t\<close> to resolved, records the answer, and
  every user row gains the prize and one \<open>won_tournaments\<close> for each row of \<open>W\<close> that carries
  its id (once, where the user has one row in \<open>W\<close>; not at all where it has none); the
  credits add up to \<open>prize_pool t - prize_pool t mod length W\<close>, the remainder is paid to
  nobody. When \<open>W\<close> is not empty and some credit leaves the range, the call answers 500
  \<^verbatim>\<open>Failed to resolve tournament\<close> and the database is as it was: \<open>t\<close> keeps its status and
  nobody is credited.
\<close>

theorem resolve_settlement:
  fixes s :: db and t :: tournament and answer :: string
  defines "W \<equiv> filter (\<lambda>p. tournament_id p = t_id t \<and> prediction p = answer) (participants s)"
  defines "prizePerWinner \<equiv> prize_pool t div int (length W)"
  defines "s' \<equiv> fst (resolve s (t_id t) answer)"
  defines "marked \<equiv>
    map (\<lambda>x. if x = t then t\<lparr>status := Resolved, correct_answer := Some answer\<rparr> else x)
        (tournaments s)"
  assumes "pk_ok s" and "t \<in> set (tournaments s)"
  shows "participants s' = participants s
         \<and> (W = [] \<longrightarrow> tournaments s' = marked \<and> users s' = users s
                \<and> snd (resolve s (t_id t) answer) = ResolvedNoWinners)
         \<and> (W \<noteq> [] \<and> credits_in_range prizePerWinner (map user_id W) (users s) \<longrightarrow>
               tournaments s' = marked
             \<and> snd (resolve s (t_id t) answer) = ResolvedWinners (length W) prizePerWinner
             \<and> users s' =
                 map (\<lambda>u. u\<lparr>points := points u
                               + prizePerWinner * int (length (filter (\<lambda>p. user_id p = u_id u) W)),
                            won_tournaments := won_tournaments u
                               + int (length (filter (\<lambda>p. user_id p = u_id u) W))\<rparr>)
                     (users s)
             \<and> int (length W) * prizePerWinner = prize_pool t - prize_pool t mod int (length W))
         \<and> (W \<noteq> [] \<and> \<not> credits_in_range prizePerWinner (map user_id W) (users s) \<longrightarrow>
               resolve s (t_id t) answer = (s, ResolveFailed))"
proof -
  let ?s1 = "s\<lparr>tournaments := mark_resolved (t_id t) answer (tournaments s)\<rparr>"
  let ?ws = "map (\<lambda>p. (user_id p, prize_pool t)) W"
  have win: "select_winners ?s1 (t_id t) answer = ?ws"
    using assms(5,6) by (simp add: W_def select_winners_unique)
  have ts: "mark_resolved (t_id t) answer (tournaments s) = marked"
    using assms(5,6) by (simp add: marked_def pk_ok_def mark_resolved_unique)
  have ids: "map fst ?ws = map user_id W"
    by (simp add: comp_def)
  have ps: "participants s' = participants s"
    by (simp add: s'_def resolve_participants)
  show ?thesis
  proof (cases W)
    case Nil
    then have "resolve s (t_id t) answer = (?s1, ResolvedNoWinners)"
      using win by (simp add: resolve_def Let_def)
    then show ?thesis
      using Nil ps by (simp add: s'_def ts)
  next
    case (Cons p ps')
    then have sel: "select_winners ?s1 (t_id t) answer =
               (user_id p, prize_pool t) # map (\<lambda>p. (user_id p, prize_pool t)) ps'"
      using win by simp
    have ne: "W \<noteq> []" using Cons by simp
    have r: "resolve s (t_id t) answer =
        (case pay_winners prizePerWinner ?ws (users s) of
           None \<Rightarrow> (s, ResolveFailed)
         | Some us \<Rightarrow> (?s1\<lparr>users := us\<rparr>, ResolvedWinners (length W) prizePerWinner))"
      unfolding resolve_def Let_def sel using Cons
      by (simp add: prizePerWinner_def del: pay_winners.simps split: option.split)
    have total: "int (length W) * prizePerWinner = prize_pool t - prize_pool t mod int (length W)"
      by (simp add: prizePerWinner_def minus_mod_eq_mult_div)
    show ?thesis
    proof (cases "credits_in_range prizePerWinner (map user_id W) (users s)")
      case True
      then have "resolve s (t_id t) answer =
          (?s1\<lparr>users := map (credited prizePerWinner (map user_id W)) (users s)\<rparr>,
           ResolvedWinners (length W) prizePerWinner)"
        unfolding r pay_winners_eq ids by simp
      then show ?thesis
        using True ne ps total by (simp add: s'_def ts credited_def count_list_map)
    next
      case False
      then have "resolve s (t_id t) answer = (s, ResolveFailed)"
        unfolding r pay_winners_eq ids by simp
      then show ?thesis
        using False ne ps by simp
    qed
  qed
qed

theorem resolve_settlement_witness:
  "pk_ok settle_db \<and> settle_tournament \<in> set (tournaments settle_db)
   \<and> snd (resolve settle_db 1 ''Yes'') = ResolvedWinners 3 33
   \<and> map points (users (fst (resolve settle_db 1 ''Yes''))) = [933, 933, 933, 900]
   \<and> map won_tournaments (users (fst (resolve settle_db 1 ''Yes''))) = [1, 1, 1, 0]
   \<and> map status (tournaments (fst (resolve settle_db 1 ''Yes''))) = [Resolved]
   \<and> map correct_answer (tournaments (fst (resolve settle_db 1 ''Yes''))) = [Some ''Yes'']
   \<and> (3::int) * 33 = 100 - 100 mod 3
   \<and> snd (resolve settle_db 1 ''Maybe'') = ResolvedNoWinners
   \<and> users (fst (resolve settle_db 1 ''Maybe'')) = users settle_db
   \<and> map status (tournaments (fst (resolve settle_db 1 ''Maybe''))) = [Resolved]
   \<and> pk_ok rich_settle_db \<and> settle_tournament \<in> set (tournaments rich_settle_db)
   \<and> resolve rich_settle_db 1 ''Yes'' = (rich_settle_db, ResolveFailed)"
proof -
  have pre: "pk_ok settle_db" "settle_tournament \<in> set (tournaments settle_db)"
    by (simp_all add: pk_ok_def settle_db_def settle_tournament_def settle_user_def)
  have pre': "pk_ok rich_settle_db" "settle_tournament \<in> set (tournaments rich_settle_db)"
    by (simp_all add: pk_ok_def rich_settle_db_def settle_db_def settle_tournament_def
        settle_user_def)
  have yes: "snd (resolve settle_db 1 ''Yes'') = ResolvedWinners 3 33
   \<and> map points (users (fst (resolve settle_db 1 ''Yes''))) = [933, 933, 933, 900]
   \<and> map won_tournaments (users (fst (resolve settle_db 1 ''Yes''))) = [1, 1, 1, 0]
   \<and> map status (tournaments (fst (resolve settle_db 1 ''Yes''))) = [Resolved]
   \<and> map correct_answer (tournaments (fst (resolve settle_db 1 ''Yes''))) = [Some ''Yes'']
   \<and> (3::int) * 33 = 100 - 100 mod 3"
    using resolve_settlement [OF pre, of "''Yes''"]
    by (simp add: credits_in_range_def int4_def settle_db_def settle_tournament_def
        settle_user_def settle_entry_def)
  have maybe: "snd (resolve settle_db 1 ''Maybe'') = ResolvedNoWinners
   \<and> users (fst (resolve settle_db 1 ''Maybe'')) = users settle_db
   \<and> map status (tournaments (fst (resolve settle_db 1 ''Maybe''))) = [Resolved]"
    using resolve_settlement [OF pre, of "''Maybe''"]
    by (simp add: settle_db_def settle_tournament_def settle_user_def settle_entry_def)
  have no: "resolve rich_settle_db 1 ''Yes'' = (rich_settle_db, ResolveFailed)"
    using resolve_settlement [OF pre', of "''Yes''"]
    by (simp add: credits_in_range_def int4_def rich_settle_db_def settle_db_def
        settle_tournament_def settle_user_def settle_entry_def)
  from pre pre' yes maybe no show ?thesis by blast
qed

text \<open>
  C10, as the specification states it, has the call succeed for a tournament in any
  status. The active demo tournament with one participant whose user holds 2147483647
  points is resolved with that participant's prediction: the credit of the prize leaves
  the \<^verbatim>\<open>INTEGER\<close> range and the call fails with 500 \<^verbatim>\<open>Failed to resolve tournament\<close>; the
  tournament stays active.
\<close>

theorem resolve_failure_counterexample:
  "map status (tournaments rich_active_db) = [Active]
   \<and> snd (resolve rich_active_db 1 ''Above $45,000'') = ResolveFailed
   \<and> fst (resolve rich_active_db 1 ''Above $45,000'') = rich_active_db"
  by (simp add: resolve_def select_winners_def mark_resolved_def credit_winner_refused_def
      int4_def rich_active_db_def demo_user_def demo_tournament_def)

text \<open>
  C10, amended. The handler has no existence check and no status check. When no tournament
  row has the id, the call answers \<^verbatim>\<open>Tournament resolved, no winners\<close> and the database is
  unchanged, so no user is credited. When no participant row of the id carries the answer,
  the call answers the same and no user row changes. The answer does not depend on the
  status of any tournament row. The call fails only when a credit leaves the \<^verbatim>\<open>INTEGER\<close>
  range: then there is a tournament row with the id and a participant row of the id that
  carries the answer, and the database is as it was. When the call does not fail, every
  tournament row with the id, whatever its status was, ends up resolved with the answer
  recorded.
\<close>

theorem resolve_no_guard:
  "((\<forall>t \<in> set (tournaments s). t_id t \<noteq> tid) \<longrightarrow> resolve s tid answer = (s, ResolvedNoWinners))
   \<and> ((\<forall>p \<in> set (participants s). \<not> (tournament_id p = tid \<and> prediction p = answer)) \<longrightarrow>
        snd (resolve s tid answer) = ResolvedNoWinners
        \<and> users (fst (resolve s tid answer)) = users s)
   \<and> snd (resolve (s\<lparr>tournaments := map (\<lambda>t. t\<lparr>status := f t\<rparr>) (tournaments s)\<rparr>) tid answer) =
       snd (resolve s tid answer)
   \<and> (snd (resolve s tid answer) = ResolveFailed \<longrightarrow>
        fst (resolve s tid answer) = s
        \<and> (\<exists>t \<in> set (tournaments s). t_id t = tid)
        \<and> (\<exists>p \<in> set (participants s). tournament_id p = tid \<and> prediction p = answer))
   \<and> (snd (resolve s tid answer) \<noteq> ResolveFailed \<longrightarrow>
        (\<forall>t' \<in> set (tournaments (fst (resolve s tid answer))).
           t_id t' = tid \<longrightarrow> status t' = Resolved \<and> correct_answer t' = Some answer))"
proof -
  have absent: "resolve s tid answer = (s, ResolvedNoWinners)"
    if a: "\<forall>t \<in> set (tournaments s). t_id t \<noteq> tid"
  proof -
    have mr: "mark_resolved tid answer (tournaments s) = tournaments s"
      using a by (rule mark_resolved_absent)
    have same: "s\<lparr>tournaments := tournaments s\<rparr> = s"
      by simp
    have "select_winners s tid answer = []"
      using a by (rule select_winners_absent)
    then show ?thesis
      unfolding resolve_def Let_def mr same by simp
  qed
  have nobody: "snd (resolve s tid answer) = ResolvedNoWinners
        \<and> users (fst (resolve s tid answer)) = users s"
    if b: "\<forall>p \<in> set (participants s). \<not> (tournament_id p = tid \<and> prediction p = answer)"
  proof -
    from b have "filter (\<lambda>p. tournament_id p = tid \<and> prediction p = answer) (participants s) = []"
      by (simp add: filter_empty_conv)
    then have "select_winners (s\<lparr>tournaments := mark_resolved tid answer (tournaments s)\<rparr>) tid answer
               = []"
      by (simp add: select_winners_def)
    then have "resolve s tid answer =
               (s\<lparr>tournaments := mark_resolved tid answer (tournaments s)\<rparr>, ResolvedNoWinners)"
      unfolding resolve_def Let_def by simp
    then show ?thesis by simp
  qed
  have failed: "fst (resolve s tid answer) = s
        \<and> (\<exists>t \<in> set (tournaments s). t_id t = tid)
        \<and> (\<exists>p \<in> set (participants s). tournament_id p = tid \<and> prediction p = answer)"
    if c: "snd (resolve s tid answer) = ResolveFailed"
  proof -
    have 1: "fst (resolve s tid answer) = s"
      using c by (rule resolve_failed_state)
    have 2: "\<exists>t \<in> set (tournaments s). t_id t = tid"
    proof (rule ccontr)
      assume "\<not> (\<exists>t \<in> set (tournaments s). t_id t = tid)"
      then have "\<forall>t \<in> set (tournaments s). t_id t \<noteq> tid" by simp
      then have "resolve s tid answer = (s, ResolvedNoWinners)" by (rule absent)
      with c show False by simp
    qed
    have 3: "\<exists>p \<in> set (participants s). tournament_id p = tid \<and> prediction p = answer"
    proof (rule ccontr)
      assume "\<not> (\<exists>p \<in> set (participants s). tournament_id p = tid \<and> prediction p = answer)"
      then have "\<forall>p \<in> set (participants s). \<not> (tournament_id p = tid \<and> prediction p = answer)"
        by simp
      then have "snd (resolve s tid answer) = ResolvedNoWinners" using nobody by simp
      with c show False by simp
    qed
    from 1 2 3 show ?thesis by simp
  qed
  have resolved: "\<forall>t' \<in> set (tournaments (fst (resolve s tid answer))).
         t_id t' = tid \<longrightarrow> status t' = Resolved \<and> correct_answer t' = Some answer"
    if d: "snd (resolve s tid answer) \<noteq> ResolveFailed"
  proof -
    have "tournaments (fst (resolve s tid answer)) = mark_resolved tid answer (tournaments s)"
      using d by (simp add: resolve_tournaments)
    then show ?thesis
      using mark_resolved_status [of tid answer "tournaments s"] by simp
  qed
  show ?thesis
  proof (intro conjI)
    show "(\<forall>t \<in> set (tournaments s). t_id t \<noteq> tid) \<longrightarrow>
          resolve s tid answer = (s, ResolvedNoWinners)"
      using absent by (rule impI)
    show "(\<forall>p \<in> set (participants s). \<not> (tournament_id p = tid \<and> prediction p = answer)) \<longrightarrow>
          snd (resolve s tid answer) = ResolvedNoWinners
          \<and> users (fst (resolve s tid answer)) = users s"
      using nobody by (rule impI)
    show "snd (resolve (s\<lparr>tournaments := map (\<lambda>t. t\<lparr>status := f t\<rparr>) (tournaments s)\<rparr>) tid answer) =
       snd (resolve s tid answer)"
      by (rule resolve_status_irrelevant)
    show "snd (resolve s tid answer) = ResolveFailed \<longrightarrow>
        fst (resolve s tid answer) = s
        \<and> (\<exists>t \<in> set (tournaments s). t_id t = tid)
        \<and> (\<exists>p \<in> set (participants s). tournament_id p = tid \<and> prediction p = answer)"
      using failed by (rule impI)
    show "snd (resolve s tid answer) \<noteq> ResolveFailed \<longrightarrow>
        (\<forall>t' \<in> set (tournaments (fst (resolve s tid answer))).
           t_id t' = tid \<longrightarrow> status t' = Resolved \<and> correct_answer t' = Some answer)"
      using resolved by (rule impI)
  qed
qed

theorem resolve_no_guard_witness:
  "tournaments no_tournament_db = []
   \<and> resolve no_tournament_db 1 ''Above $45,000'' = (no_tournament_db, ResolvedNoWinners)
   \<and> map status (tournaments pending_db) = [Pending]
   \<and> participants pending_db = []
   \<and> snd (resolve pending_db 1 ''Above $45,000'') = ResolvedNoWinners
   \<and> users (fst (resolve pending_db 1 ''Above $45,000'')) = users pending_db
   \<and> map status (tournaments (fst (resolve pending_db 1 ''Above $45,000''))) = [Resolved]
   \<and> map status (tournaments rich_active_db) = [Active]
   \<and> snd (resolve rich_active_db 1 ''Below $45,000'') = ResolvedNoWinners
   \<and> snd (resolve (rich_active_db\<lparr>tournaments :=
             map (\<lambda>t. t\<lparr>status := Closed\<rparr>) (tournaments rich_active_db)\<rparr>) 1 ''Below $45,000'')
       = ResolvedNoWinners"
proof -
  have a: "tournaments no_tournament_db = []"
    by (simp add: no_tournament_db_def)
  have b: "map status (tournaments pending_db) = [Pending]" "participants pending_db = []"
    by (simp_all add: pending_db_def demo_db_def)
  have c: "resolve no_tournament_db 1 ''Above $45,000'' = (no_tournament_db, ResolvedNoWinners)"
    using a resolve_no_guard [of no_tournament_db 1 "''Above $45,000''"] by simp
  have e: "map t_id (tournaments (fst (resolve pending_db 1 ''Above $45,000''))) = [1]"
    by (simp add: resolve_def select_winners_def mark_resolved_def pending_db_def demo_db_def
        demo_tournament_def)
  have d: "snd (resolve pending_db 1 ''Above $45,000'') = ResolvedNoWinners
     \<and> users (fst (resolve pending_db 1 ''Above $45,000'')) = users pending_db"
    using b resolve_no_guard [of pending_db 1 "''Above $45,000''"] by simp
  then have d': "map status (tournaments (fst (resolve pending_db 1 ''Above $45,000''))) = [Resolved]"
    using e resolve_no_guard [of pending_db 1 "''Above $45,000''"]
    by (cases "tournaments (fst (resolve pending_db 1 ''Above $45,000''))") auto
  have g: "map status (tournaments rich_active_db) = [Active]"
    by (simp add: rich_active_db_def demo_tournament_def)
  have h: "snd (resolve rich_active_db 1 ''Below $45,000'') = ResolvedNoWinners"
    using resolve_no_guard [of rich_active_db 1 "''Below $45,000''"]
    by (simp add: rich_active_db_def)
  have i: "snd (resolve (rich_active_db\<lparr>tournaments :=
             map (\<lambda>t. t\<lparr>status := Closed\<rparr>) (tournaments rich_active_db)\<rparr>) 1 ''Below $45,000'')
       = ResolvedNoWinners"
    using h resolve_no_guard [of rich_active_db 1 "''Below $45,000''" "\<lambda>t. Closed"]
    by simp
  from a b c d d' g h i show ?thesis by blast
qed

section \<open>Free claim\<close>

text \<open>
  C8, as the specification states it, has the call fail with \<^verbatim>\<open>Cooldown active\<close> exactly when
  \<open>last_claim_date\<close> is set and fewer than 24 hours have elapsed since it, and credit the
  award otherwise. The handler compares \<^verbatim>\<open>Math.abs(now - lastClaim)\<close>: for a user whose last
  claim is stamped 27.7 hours after the handler's clock, fewer than 24 hours (fewer than
  none) have elapsed, and the call credits 500 points; the stamp it writes is the
  database's \<^verbatim>\<open>NOW()\<close> (here 2000), not the \<open>now\<close> it compared with (here 1000). And for a
  user who never claimed and holds 2147483647 points the call neither answers
  \<^verbatim>\<open>Cooldown active\<close> nor credits: the update leaves the \<^verbatim>\<open>INTEGER\<close> range and the handler
  answers 500 \<^verbatim>\<open>Failed to claim points\<close>.
\<close>

theorem claim_cooldown_counterexample:
  "last_claim_date ahead_user = Some 100001000
   \<and> (1000::int) - 100001000 < 24 * 3600000
   \<and> claim_free_points ahead_db 1 1000 2000 =
       (ahead_db\<lparr>users := [ahead_user\<lparr>points := 1500, last_claim_date := Some 2000\<rparr>]\<rparr>,
        Claimed 500 86401000)
   \<and> last_claim_date wealthy_user = None
   \<and> claim_free_points wealthy_db 1 1000 2000 = (wealthy_db, ClaimFailed)"
  by (simp add: claim_free_points_def cooldown_def credit_claim_def credit_claim_refused_def
      int4_def pointsToAdd_def cooldownHours_def hour_ms_def ahead_db_def ahead_user_def
      wealthy_db_def wealthy_user_def demo_db_def demo_user_def)

text \<open>
  C8, amended. For a user \<open>u\<close> of the table, with \<open>now\<close> the clock of the handler and
  \<open>db_now\<close> the clock of the database: when \<open>last_claim_date u\<close> is set to \<open>l\<close> and \<open>now\<close> and
  \<open>l\<close> are less than 24 hours (\<open>24 * 3600000\<close> ms) apart, in either direction, the call
  answers \<^verbatim>\<open>Cooldown active\<close> with the remaining wait \<open>24 h - \<bar>now - l\<bar>\<close> and leaves the
  database, so points and \<open>last_claim_date\<close>, unchanged. In every other case (never
  claimed, or 24 hours or more apart): when \<open>points u + 500\<close> is in the \<^verbatim>\<open>INTEGER\<close> range
  the call adds 500 points to exactly that user and stamps \<open>last_claim_date = db_now\<close>;
  when it is not, the call answers 500 \<^verbatim>\<open>Failed to claim points\<close> and leaves the database
  unchanged. The three answers differ, so the cooldown answer occurs if and only if the
  first condition holds.
\<close>

theorem claim_free_points_cooldown:
  assumes "pk_ok s" and "u \<in> set (users s)"
  shows "(last_claim_date u = Some l \<and> \<bar>now - l\<bar> < 24 * 3600000 \<longrightarrow>
            claim_free_points s (u_id u) now db_now =
              (s, CooldownActive (24 * 3600000 - \<bar>now - l\<bar>) (l + 24 * 3600000)))
         \<and> ((last_claim_date u = None
              \<or> (\<exists>l. last_claim_date u = Some l \<and> 24 * 3600000 \<le> \<bar>now - l\<bar>))
             \<and> int4 (points u + 500) \<longrightarrow>
            claim_free_points s (u_id u) now db_now =
              (s\<lparr>users := map (\<lambda>v. if v = u
                                    then u\<lparr>points := points u + 500,
                                           last_claim_date := Some db_now\<rparr>
                                    else v) (users s)\<rparr>,
               Claimed 500 (now + 24 * 3600000)))
         \<and> ((last_claim_date u = None
              \<or> (\<exists>l. last_claim_date u = Some l \<and> 24 * 3600000 \<le> \<bar>now - l\<bar>))
             \<and> \<not> int4 (points u + 500) \<longrightarrow>
            claim_free_points s (u_id u) now db_now = (s, ClaimFailed))"
proof -
  have sel: "filter (\<lambda>v. u_id v = u_id u) (users s) = [u]"
    using assms(1,2) by (simp add: pk_ok_def filter_key_unique)
  have upd: "credit_claim db_now (u_id u) (users s) =
             map (\<lambda>v. if v = u then u\<lparr>points := points u + 500, last_claim_date := Some db_now\<rparr>
                       else v)
                 (users s)"
    using assms(1,2) by (simp add: pk_ok_def credit_claim_unique)
  have ref: "credit_claim_refused (u_id u) (users s) \<longleftrightarrow> \<not> int4 (points u + 500)"
    using assms(1,2) by (simp add: pk_ok_def credit_claim_refused_unique)
  show ?thesis
  proof (cases "last_claim_date u")
    case None
    then show ?thesis
      by (simp add: claim_free_points_def cooldown_def sel upd ref pointsToAdd_def
          cooldownHours_def hour_ms_def)
  next
    case (Some l')
    then show ?thesis
      by (simp add: claim_free_points_def cooldown_def sel upd ref pointsToAdd_def
          cooldownHours_def hour_ms_def)
  qed
qed

theorem claim_free_points_cooldown_witness:
  "pk_ok demo_db \<and> demo_user \<in> set (users demo_db) \<and> last_claim_date demo_user = None
   \<and> int4 (points demo_user + 500)
   \<and> claim_free_points demo_db 1 1000 1250 = (claimed_db, Claimed 500 86401000)
   \<and> map points (users claimed_db) = [1500]
   \<and> last_claim_date claimed_user = Some 1250
   \<and> claim_free_points claimed_db 1 3601000 3601250 =
       (claimed_db, CooldownActive 82800250 86401250)
   \<and> claim_free_points claimed_db 1 250 500 = (claimed_db, CooldownActive 86399000 86401250)
   \<and> claim_free_points claimed_db 1 86401250 86401500 =
       (claimed_db\<lparr>users := [claimed_user\<lparr>points := 2000, last_claim_date := Some 86401500\<rparr>]\<rparr>,
        Claimed 500 172801250)
   \<and> \<not> int4 (points wealthy_user + 500)
   \<and> claim_free_points wealthy_db 1 5000 5250 = (wealthy_db, ClaimFailed)"
proof -
  have pre: "pk_ok demo_db" "demo_user \<in> set (users demo_db)"
      "pk_ok claimed_db" "claimed_user \<in> set (users claimed_db)"
      "pk_ok wealthy_db" "wealthy_user \<in> set (users wealthy_db)"
    by (simp_all add: pk_ok_def demo_db_def demo_user_def claimed_db_def claimed_user_def
        wealthy_db_def wealthy_user_def)
  have facts: "last_claim_date demo_user = None" "int4 (points demo_user + 500)"
      "map points (users claimed_db) = [1500]" "last_claim_date claimed_user = Some 1250"
      "\<not> int4 (points wealthy_user + 500)"
    by (simp_all add: int4_def demo_user_def claimed_db_def claimed_user_def wealthy_user_def)
  have a: "claim_free_points demo_db 1 1000 1250 = (claimed_db, Claimed 500 86401000)"
    using claim_free_points_cooldown [OF pre(1,2), of 0 1000 1250]
    by (simp add: int4_def demo_db_def demo_user_def claimed_db_def claimed_user_def)
  have b: "claim_free_points claimed_db 1 3601000 3601250 =
       (claimed_db, CooldownActive 82800250 86401250)"
    using claim_free_points_cooldown [OF pre(3,4), of 1250 3601000 3601250]
    by (simp add: demo_db_def demo_user_def claimed_db_def claimed_user_def)
  have c: "claim_free_points claimed_db 1 250 500 = (claimed_db, CooldownActive 86399000 86401250)"
    using claim_free_points_cooldown [OF pre(3,4), of 1250 250 500]
    by (simp add: demo_db_def demo_user_def claimed_db_def claimed_user_def)
  have d: "claim_free_points claimed_db 1 86401250 86401500 =
       (claimed_db\<lparr>users := [claimed_user\<lparr>points := 2000, last_claim_date := Some 86401500\<rparr>]\<rparr>,
        Claimed 500 172801250)"
    using claim_free_points_cooldown [OF pre(3,4), of 1250 86401250 86401500]
    by (simp add: int4_def demo_db_def demo_user_def claimed_db_def claimed_user_def)
  have e: "claim_free_points wealthy_db 1 5000 5250 = (wealthy_db, ClaimFailed)"
    using claim_free_points_cooldown [OF pre(5,6), of 0 5000 5250]
    by (simp add: int4_def demo_db_def demo_user_def wealthy_db_def wealthy_user_def)
  from pre(1,2) facts a b c d e show ?thesis by blast
qed

section \<open>Lifecycle\<close>

text \<open>
  C7. Over every sequence of operations each tournament row keeps its id and its status
  never moves back in the order pending, active, closed, resolved; a resolved row stays
  resolved. A sequence without a resolution call resolves no row, so only the
  administrative resolution takes a tournament to resolved. Running the sweep a second
  time at the same instant gives the database of the first run, and the sweep touches
  neither users nor participants.
\<close>

theorem lifecycle_forward_only:
  "list_all2 forward (tournaments s) (tournaments (run s xs))
   \<and> ((\<forall>tid answer. Resolve tid answer \<notin> set xs) \<longrightarrow>
        list_all2 not_newly_resolved (tournaments s) (tournaments (run s xs)))
   \<and> sweep (sweep s now) now = sweep s now
   \<and> users (sweep s now) = users s \<and> participants (sweep s now) = participants s"
  by (simp add: forward_run not_newly_run sweep_idem) (simp add: sweep_def)

theorem lifecycle_forward_only_witness:
  "list_all2 forward (tournaments pending_db)
      (tournaments (run pending_db [Sweep 1000, Sweep 1000, Sweep 7200000]))
   \<and> (\<forall>tid answer. Resolve tid answer \<notin> set [Sweep 1000, Sweep 1000, Sweep 7200000])
   \<and> list_all2 not_newly_resolved (tournaments pending_db)
      (tournaments (run pending_db [Sweep 1000, Sweep 1000, Sweep 7200000]))
   \<and> map status (tournaments (run pending_db [Sweep 1000])) = [Active]
   \<and> map status (tournaments (run pending_db [Sweep 1000, Sweep 1000])) = [Active]
   \<and> map status (tournaments (run pending_db [Sweep 1000, Sweep 1000, Sweep 7200000])) = [Closed]
   \<and> map status (tournaments resolved_db) = [Resolved]
   \<and> list_all2 forward (tournaments resolved_db)
        (tournaments (run resolved_db [Sweep 7200000, Resolve 1 ''No'']))
   \<and> map status (tournaments (run resolved_db [Sweep 7200000, Resolve 1 ''No''])) = [Resolved]
   \<and> sweep (sweep pending_db 1000) 1000 = sweep pending_db 1000"
proof -
  have a: "\<forall>tid answer. Resolve tid answer \<notin> set [Sweep 1000, Sweep 1000, Sweep 7200000]"
    by simp
  have b: "map status (tournaments (run pending_db [Sweep 1000])) = [Active]"
    "map status (tournaments (run pending_db [Sweep 1000, Sweep 1000])) = [Active]"
    "map status (tournaments (run pending_db [Sweep 1000, Sweep 1000, Sweep 7200000])) = [Closed]"
    by (simp_all add: pending_db_def demo_db_def demo_tournament_def sweep_def start_due_def
        close_due_def)
  have r: "map status (tournaments resolved_db) = [Resolved]"
    by code_simp
  have c: "map status (tournaments (run resolved_db [Sweep 7200000, Resolve 1 ''No''])) = [Resolved]"
    by code_simp
  from a b r c
    lifecycle_forward_only [of pending_db "[Sweep 1000, Sweep 1000, Sweep 7200000]" 1000]
    lifecycle_forward_only [of resolved_db "[Sweep 7200000, Resolve 1 ''No'']" 1000]
  show ?thesis by blast
qed

section \<open>Participation records\<close>

text \<open>
  C6. When no pair of tournament and user has two participant rows, no sequence of
  operations (entries included) produces a second row for a pair; and every sequence
  leaves the rows that exist where they are and as they are: the participants table after
  the sequence is the table before it followed by the new rows.
\<close>

theorem participation_unique_and_kept:
  "(one_entry_per_pair s \<longrightarrow> one_entry_per_pair (run s xs))
   \<and> (\<exists>new. participants (run s xs) = participants s @ new)"
  by (simp add: one_entry_run participants_kept_run)

theorem participation_unique_and_kept_witness:
  "one_entry_per_pair demo_db
   \<and> one_entry_per_pair
        (run demo_db [Enter 1 1 ''Above $45,000'', Enter 1 1 ''Below $45,000'',
                      Sweep 7200000, Resolve 1 ''Above $45,000''])
   \<and> participants
        (run demo_db [Enter 1 1 ''Above $45,000'', Enter 1 1 ''Below $45,000'',
                      Sweep 7200000, Resolve 1 ''Above $45,000'']) =
       [\<lparr>tournament_id = 1, user_id = 1, prediction = ''Above $45,000'', points_paid = 100\<rparr>]"
proof -
  have a: "one_entry_per_pair demo_db"
    by (simp add: one_entry_per_pair_def demo_db_def)
  have b: "participants
        (run demo_db [Enter 1 1 ''Above $45,000'', Enter 1 1 ''Below $45,000'',
                      Sweep 7200000, Resolve 1 ''Above $45,000'']) =
       [\<lparr>tournament_id = 1, user_id = 1, prediction = ''Above $45,000'', points_paid = 100\<rparr>]"
    by code_simp
  from a b participation_unique_and_kept [of demo_db
      "[Enter 1 1 ''Above $45,000'', Enter 1 1 ''Below $45,000'',
        Sweep 7200000, Resolve 1 ''Above $45,000'']"]
  show ?thesis by blast
qed

section \<open>Balances\<close>

text \<open>
  C4. From a valid state (primary keys unique; no balance, entry fee or prize pool
  negative) every sequence of registrations, entries, resolutions, free claims and sweeps
  ends in a state in which every user has \<open>0 \<le> points\<close>. Every prefix of a sequence is a
  sequence, so the bound holds after each single operation.
\<close>

theorem points_never_negative:
  assumes "pk_ok s" and "valid_state s"
  shows "\<forall>u \<in> set (users (run s xs)). 0 \<le> points u"
  using valid_state_run [OF assms, of xs] by (simp add: valid_state_def)

theorem points_never_negative_witness:
  "pk_ok demo_db \<and> valid_state demo_db
   \<and> map points (users (run demo_db demo_ops)) = [1100, 1400]
   \<and> list_all (\<lambda>u. 0 \<le> points u) (users (run demo_db demo_ops))"
proof -
  have a: "pk_ok demo_db"
    by (simp add: pk_ok_def demo_db_def)
  have b: "valid_state demo_db"
    by (simp add: valid_state_def demo_db_def demo_user_def demo_tournament_def)
  from a b demo_run points_never_negative [OF a b, of demo_ops]
  show ?thesis unfolding list_all_iff by blast
qed

section \<open>Tournament counters\<close>

text \<open>
  C5. From a state with unique primary keys in which, for every tournament,
  \<open>current_participants\<close> is the number of its participant rows, does not exceed
  \<open>max_participants\<close>, and \<open>prize_pool\<close> is the sum of the \<open>points_paid\<close> of those rows, the
  same holds after every sequence of operations. When in addition every row paid the
  entry fee of its tournament, each prize pool is \<open>current_participants * entry_fee\<close>:
  \<open>N\<close> entries at fee \<open>F\<close> give exactly \<open>N * F\<close>.
\<close>

theorem counters_and_prize_pool:
  assumes "pk_ok s" and "counters_consistent s"
  shows "counters_consistent (run s xs)
         \<and> (fees_as_charged s \<longrightarrow>
              (\<forall>t \<in> set (tournaments (run s xs)).
                 prize_pool t = current_participants t * entry_fee t))"
proof (intro conjI impI ballI)
  show c: "counters_consistent (run s xs)"
    using assms by (rule counters_run)
  fix t
  assume "fees_as_charged s" and t: "t \<in> set (tournaments (run s xs))"
  with assms(1) have "fees_as_charged (run s xs)"
    by (simp add: fees_run)
  with t have "\<forall>p \<in> set (entries_of (run s xs) (t_id t)). points_paid p = entry_fee t"
    by (simp add: fees_as_charged_def)
  then have "sum_list (map points_paid (entries_of (run s xs) (t_id t))) =
             int (length (entries_of (run s xs) (t_id t))) * entry_fee t"
    by (rule sum_uniform)
  with c t show "prize_pool t = current_participants t * entry_fee t"
    by (simp add: counters_consistent_def)
qed

theorem counters_and_prize_pool_witness:
  "pk_ok demo_db \<and> counters_consistent demo_db \<and> fees_as_charged demo_db
   \<and> counters_consistent (run demo_db demo_ops)
   \<and> map entry_fee (tournaments (run demo_db demo_ops)) = [100]
   \<and> map current_participants (tournaments (run demo_db demo_ops)) = [2]
   \<and> map prize_pool (tournaments (run demo_db demo_ops)) = [200]
   \<and> list_all (\<lambda>t. prize_pool t = current_participants t * entry_fee t)
        (tournaments (run demo_db demo_ops))
   \<and> pk_ok single_seat_db \<and> counters_consistent single_seat_db
   \<and> counters_consistent (run single_seat_db demo_ops)
   \<and> map current_participants (tournaments (run single_seat_db demo_ops)) = [1]
   \<and> map max_participants (tournaments (run single_seat_db demo_ops)) = [1]"
proof -
  have a: "pk_ok demo_db" "counters_consistent demo_db" "fees_as_charged demo_db"
    by (simp_all add: pk_ok_def counters_consistent_def fees_as_charged_def entries_of_def
        demo_db_def demo_tournament_def)
  have b: "pk_ok single_seat_db" "counters_consistent single_seat_db"
    by (simp_all add: pk_ok_def counters_consistent_def entries_of_def single_seat_db_def
        demo_db_def demo_tournament_def)
  have c: "map entry_fee (tournaments (run demo_db demo_ops)) = [100]"
    "map current_participants (tournaments (run demo_db demo_ops)) = [2]"
    "map prize_pool (tournaments (run demo_db demo_ops)) = [200]"
    "map current_participants (tournaments (run single_seat_db demo_ops)) = [1]"
    "map max_participants (tournaments (run single_seat_db demo_ops)) = [1]"
    by code_simp+
  from a b c counters_and_prize_pool [OF a(1,2), of demo_ops]
    counters_and_prize_pool [OF b, of demo_ops]
  show ?thesis unfolding list_all_iff by blast
qed

end
